theory Spec2Isabelle
  imports Main "HOL-Library.Word"
begin

unbundle bit_operations_syntax

section \<open>The TCP layer of libtins (src/tcp.cpp)\<close>

text \<open>
  A shallow embedding of \<^verbatim>\<open>Tins::TCP\<close>. Machine integers are words of the width the
  source declares. A pointer to a byte region is the list of the bytes found from the
  pointer onwards; a null pointer is \<open>None\<close>. An exception is the \<open>Inl\<close> side of a sum.
\<close>

subsection \<open>Errors\<close>

datatype error =
  runtime_error string   \<comment> \<open>\<^verbatim>\<open>throw std::runtime_error(msg)\<close>\<close>
  | assertion_failed     \<comment> \<open>\<^verbatim>\<open>assert(...)\<close> does not hold\<close>
  | out_of_bounds        \<comment> \<open>a write outside the destination region (undefined in C++)\<close>

subsection \<open>Byte order and the memory image of integers\<close>

text \<open>
  The host is taken to be little-endian with a 64-bit \<^verbatim>\<open>size_t\<close> (x86-64): an integer
  lies in memory with its least significant byte first. \<open>bytes_of_u16\<close> and
  \<open>bytes_of_u32\<close> are the memory image of a value, \<open>u16_of_bytes\<close> and \<open>u32_of_bytes\<close>
  the value read through a pointer cast.
\<close>

definition bytes_of_u16 :: "16 word \<Rightarrow> 8 word list" where
  "bytes_of_u16 x = [ucast x, ucast (drop_bit 8 x)]"

definition u16_of_bytes :: "8 word list \<Rightarrow> 16 word" where
  "u16_of_bytes bs = ucast (bs ! 0) OR push_bit 8 (ucast (bs ! 1))"

definition bytes_of_u32 :: "32 word \<Rightarrow> 8 word list" where
  "bytes_of_u32 x = [ucast x, ucast (drop_bit 8 x), ucast (drop_bit 16 x), ucast (drop_bit 24 x)]"

definition u32_of_bytes :: "8 word list \<Rightarrow> 32 word" where
  "u32_of_bytes bs =
     ucast (bs ! 0) OR push_bit 8 (ucast (bs ! 1)) OR push_bit 16 (ucast (bs ! 2))
       OR push_bit 24 (ucast (bs ! 3))"

text \<open>
  Modelled from the spec: \<^verbatim>\<open>Utils::net_to_host_s\<close> and \<^verbatim>\<open>Utils::net_to_host_l\<close> (utils.h
  is not among the sources) are the host/network byte-order conversions for 16-bit and
  32-bit values. On the little-endian host both reverse the bytes of the value.
\<close>

definition net_to_host_s :: "16 word \<Rightarrow> 16 word" where
  "net_to_host_s x = u16_of_bytes (rev (bytes_of_u16 x))"

definition net_to_host_l :: "32 word \<Rightarrow> 32 word" where
  "net_to_host_l x = u32_of_bytes (rev (bytes_of_u32 x))"

subsection \<open>The fixed header\<close>

text \<open>
  Modelled from the spec: \<^verbatim>\<open>struct tcphdr\<close> is declared in tcp.h, which is not among the
  sources. Its members follow the standard TCP field order (source port first). The
  multi-byte members are kept in network byte order, so that the memory image of the
  struct is the header on the wire; \<open>res1\<close> and \<open>doff\<close> are four-bit fields in the low
  and the high half of byte 12, and the eight flags are one-bit fields of byte 13, FIN
  lowest. \<open>sizeof(tcphdr)\<close> is 20.
\<close>

record tcphdr =
  sport :: "16 word"
  dport :: "16 word"
  seq :: "32 word"
  ack_seq :: "32 word"
  res1 :: "4 word"
  doff :: "4 word"
  fin :: "1 word"
  syn :: "1 word"
  rst :: "1 word"
  psh :: "1 word"
  ack :: "1 word"
  urg :: "1 word"
  ece :: "1 word"
  cwr :: "1 word"
  window :: "16 word"
  check :: "16 word"
  urg_ptr :: "16 word"

text \<open>\<^verbatim>\<open>memcpy(dest, &_tcp, sizeof(tcphdr))\<close>: the memory image of the struct.\<close>

definition bytes_of_tcphdr :: "tcphdr \<Rightarrow> 8 word list" where
  "bytes_of_tcphdr h =
     bytes_of_u16 (sport h) @ bytes_of_u16 (dport h) @ bytes_of_u32 (seq h)
     @ bytes_of_u32 (ack_seq h)
     @ [ucast (res1 h) OR push_bit 4 (ucast (doff h)),
        ucast (fin h) OR push_bit 1 (ucast (syn h)) OR push_bit 2 (ucast (rst h))
          OR push_bit 3 (ucast (psh h)) OR push_bit 4 (ucast (ack h))
          OR push_bit 5 (ucast (urg h)) OR push_bit 6 (ucast (ece h))
          OR push_bit 7 (ucast (cwr h))]
     @ bytes_of_u16 (window h) @ bytes_of_u16 (check h) @ bytes_of_u16 (urg_ptr h)"

text \<open>\<^verbatim>\<open>memcpy(&_tcp, buffer, sizeof(tcphdr))\<close>: the struct read from 20 bytes.\<close>

definition tcphdr_of_bytes :: "8 word list \<Rightarrow> tcphdr" where
  "tcphdr_of_bytes bs =
     \<lparr> sport = u16_of_bytes (take 2 bs),
       dport = u16_of_bytes (take 2 (drop 2 bs)),
       seq = u32_of_bytes (take 4 (drop 4 bs)),
       ack_seq = u32_of_bytes (take 4 (drop 8 bs)),
       res1 = ucast (bs ! 12),
       doff = ucast (drop_bit 4 (bs ! 12)),
       fin = ucast (bs ! 13),
       syn = ucast (drop_bit 1 (bs ! 13)),
       rst = ucast (drop_bit 2 (bs ! 13)),
       psh = ucast (drop_bit 3 (bs ! 13)),
       ack = ucast (drop_bit 4 (bs ! 13)),
       urg = ucast (drop_bit 5 (bs ! 13)),
       ece = ucast (drop_bit 6 (bs ! 13)),
       cwr = ucast (drop_bit 7 (bs ! 13)),
       window = u16_of_bytes (take 2 (drop 14 bs)),
       check = u16_of_bytes (take 2 (drop 16 bs)),
       urg_ptr = u16_of_bytes (take 2 (drop 18 bs)) \<rparr>"

text \<open>\<^verbatim>\<open>std::memset(&_tcp, 0, sizeof(tcphdr))\<close>\<close>

definition zero_tcphdr :: tcphdr where
  "zero_tcphdr =
     \<lparr> sport = 0, dport = 0, seq = 0, ack_seq = 0, res1 = 0, doff = 0, fin = 0, syn = 0,
       rst = 0, psh = 0, ack = 0, urg = 0, ece = 0, cwr = 0, window = 0, check = 0,
       urg_ptr = 0 \<rparr>"

subsection \<open>Options and the segment\<close>

text \<open>
  Modelled from the spec: the values of \<^verbatim>\<open>enum Options\<close> (tcp.h). An option kind is stored
  in a byte, and the decoder casts any byte to the enum.
\<close>

abbreviation EOL :: "8 word" where "EOL \<equiv> 0"
abbreviation NOP :: "8 word" where "NOP \<equiv> 1"
abbreviation MSS :: "8 word" where "MSS \<equiv> 2"
abbreviation WSCALE :: "8 word" where "WSCALE \<equiv> 3"
abbreviation SACK_OK :: "8 word" where "SACK_OK \<equiv> 4"
abbreviation SACK :: "8 word" where "SACK \<equiv> 5"
abbreviation TSOPT :: "8 word" where "TSOPT \<equiv> 8"
abbreviation ALTCHK :: "8 word" where "ALTCHK \<equiv> 14"

text \<open>
  \<^verbatim>\<open>struct TCPOption { uint8_t option, length; uint8_t *value; }\<close>. The members are
  suffixed, since \<open>length\<close> is the list function of HOL. \<open>value_f\<close> is \<open>None\<close> for the null
  pointer and otherwise the array that \<open>new uint8_t[length]\<close> returned.
\<close>

record TCPOption =
  option_f :: "8 word"
  length_f :: "8 word"
  value_f :: "8 word list option"

text \<open>
  The members of \<^verbatim>\<open>Tins::TCP\<close>, without the leading underscore of the source. The two
  counters are taken as \<^verbatim>\<open>uint32_t\<close>, the type in which \<open>header_size\<close> returns their sum
  (tcp.h, which declares them, is not among the sources). \<open>inner_pdu\<close> is the payload the
  layer owns: the bytes of a \<^verbatim>\<open>RawPDU\<close>, or \<open>None\<close>.
\<close>

record TCP =
  tcp :: tcphdr
  options :: "TCPOption list"
  options_size :: "32 word"
  total_options_size :: "32 word"
  inner_pdu :: "8 word list option"

definition DEFAULT_WINDOW :: "16 word" where
  "DEFAULT_WINDOW = 32678"

text \<open>The field setters the constructor uses (tcp.cpp, lines 108-142).\<close>

definition set_dport :: "16 word \<Rightarrow> TCP \<Rightarrow> TCP" where
  "set_dport new_dport t = t\<lparr>tcp := (tcp t)\<lparr>dport := net_to_host_s new_dport\<rparr>\<rparr>"

definition set_sport :: "16 word \<Rightarrow> TCP \<Rightarrow> TCP" where
  "set_sport new_sport t = t\<lparr>tcp := (tcp t)\<lparr>sport := net_to_host_s new_sport\<rparr>\<rparr>"

definition set_window :: "16 word \<Rightarrow> TCP \<Rightarrow> TCP" where
  "set_window new_window t = t\<lparr>tcp := (tcp t)\<lparr>window := net_to_host_s new_window\<rparr>\<rparr>"

definition set_check :: "16 word \<Rightarrow> TCP \<Rightarrow> TCP" where
  "set_check new_check t = t\<lparr>tcp := (tcp t)\<lparr>check := net_to_host_s new_check\<rparr>\<rparr>"

definition set_data_offset :: "8 word \<Rightarrow> TCP \<Rightarrow> TCP" where
  "set_data_offset new_doff t = t\<lparr>tcp := (tcp t)\<lparr>doff := ucast new_doff\<rparr>\<rparr>"

text \<open>\<^verbatim>\<open>TCP::TCP(uint16_t dport, uint16_t sport)\<close>: the destination port is the first argument.\<close>

definition TCP_ctor :: "16 word \<Rightarrow> 16 word \<Rightarrow> TCP" where
  "TCP_ctor dport_arg sport_arg =
     set_window DEFAULT_WINDOW
       (set_data_offset (20 div 4)
         (set_sport sport_arg
           (set_dport dport_arg
             \<lparr> tcp = zero_tcphdr, options = [], options_size = 0, total_options_size = 0,
               inner_pdu = None \<rparr>)))"

text \<open>
  \<^verbatim>\<open>TCP::add_option(Options tcp_option, uint8_t length, const uint8_t *data)\<close>. \<open>data\<close> is
  the list of the bytes at the pointer; the caller provides at least \<open>length\<close> of them.
\<close>

definition add_option :: "8 word \<Rightarrow> 8 word \<Rightarrow> 8 word list \<Rightarrow> TCP \<Rightarrow> TCP" where
  "add_option tcp_option len data t =
     (let new_data = (if len \<noteq> 0 then Some (take (unat len) data) else None);
          osize = options_size t + (ucast len + 2);
          padding = (ucast (osize AND 3) :: 8 word)
      in t\<lparr> options := options t
                 @ [\<lparr> option_f = tcp_option, length_f = len, value_f = new_data \<rparr>],
             options_size := osize,
             total_options_size :=
               (if padding \<noteq> 0 then osize - ucast padding + 4 else osize) \<rparr>)"

definition header_size :: "TCP \<Rightarrow> 32 word" where
  "header_size t = 20 + total_options_size t"

text \<open>\<^verbatim>\<open>TCP::search_option\<close>: the first stored option of the kind, or the null pointer.\<close>

fun search_option :: "8 word \<Rightarrow> TCPOption list \<Rightarrow> TCPOption option" where
  "search_option opt [] = None"
| "search_option opt (it # rest) =
     (if option_f it = opt then Some it else search_option opt rest)"

subsection \<open>Decoding (\<^verbatim>\<open>TCP::TCP(const uint8_t *buffer, uint32_t total_sz)\<close>)\<close>

definition not_enough_a :: error where
  "not_enough_a = runtime_error ''Not enough size for a TCP header in the buffer.''"

definition not_enough_an :: error where
  "not_enough_an = runtime_error ''Not enough size for an TCP header in the buffer.''"

text \<open>
  The inner \<^verbatim>\<open>for\<close> loop of the option scan (lines 67-71), its two rounds written out:
  round \<open>i\<close> runs while \<open>args[0] != NOP\<close>, throws at the end of the options region and
  otherwise reads \<open>args[i] = buffer[index++]\<close>.
\<close>

definition read_args ::
  "8 word list \<Rightarrow> 32 word \<Rightarrow> 32 word \<Rightarrow> 8 word \<Rightarrow> 8 word \<Rightarrow> error + (32 word \<times> 8 word \<times> 8 word)"
where
  "read_args buffer header_end index a0 a1 =
     (if a0 \<noteq> NOP then
        if index = header_end then Inl not_enough_a
        else
          let b0 = buffer ! unat index; index1 = index + 1 in
          if b0 \<noteq> NOP then
            if index1 = header_end then Inl not_enough_a
            else Inr (index1 + 1, b0, buffer ! unat index1)
          else Inr (index1, b0, a1)
      else Inr (index, a0, a1))"

text \<open>Word arithmetic of the scan cursor, for the termination of the scan.\<close>

lemma unat_succ_lt:
  fixes index header_end :: "32 word"
  assumes "index < header_end"
  shows "unat (index + 1) = unat index + 1"
proof -
  have "unat index < unat header_end" using assms by (simp add: word_less_nat_alt)
  moreover have "unat header_end < 2 ^ 32" using unsigned_less [of header_end, where ?'a = nat] by simp
  ultimately have "unat index + unat (1 :: 32 word) < 2 ^ LENGTH(32)" by simp
  then have "unat (index + 1) = unat index + unat (1 :: 32 word)"
    by (simp only: unat_add_lem [THEN iffD1])
  then show ?thesis by simp
qed

lemma read_args_bounds:
  assumes "read_args buffer header_end index a0 a1 = Inr (index', b0, b1)"
    and "index < header_end"
  shows "unat index' \<le> unat header_end"
    and "a0 \<noteq> NOP \<Longrightarrow> unat index < unat index'"
    and "a0 = NOP \<Longrightarrow> index' = index \<and> b0 = NOP"
    and "b0 \<noteq> NOP \<Longrightarrow> unat index' = unat index + 2"
    and "b0 = NOP \<Longrightarrow> a0 \<noteq> NOP \<Longrightarrow> unat index' = unat index + 1"
proof -
  have lt: "unat index < unat header_end"
    using assms(2) by (simp add: word_less_nat_alt)
  have u1: "unat (index + 1) = unat index + 1"
    using assms(2) by (rule unat_succ_lt)
  have ne: "unat index + 1 < unat header_end" if "index + 1 \<noteq> header_end"
  proof -
    have "unat (index + 1) \<noteq> unat header_end" using that by (simp add: word_unat_eq_iff)
    then show ?thesis using lt u1 by simp
  qed
  have u2: "unat (index + 1 + 1) = unat index + 2" if "index + 1 \<noteq> header_end"
  proof -
    have "index + 1 < header_end"
      using ne [OF that] u1 by (simp add: word_less_nat_alt)
    then have "unat (index + 1 + 1) = unat (index + 1) + 1" by (rule unat_succ_lt)
    then show ?thesis using u1 by simp
  qed
  show "unat index' \<le> unat header_end"
    using assms(1) lt u1 u2 ne
    by (auto simp: read_args_def Let_def split: if_splits)
  show "a0 \<noteq> NOP \<Longrightarrow> unat index < unat index'"
    using assms(1) lt u1 u2 ne
    by (auto simp: read_args_def Let_def split: if_splits)
  show "a0 = NOP \<Longrightarrow> index' = index \<and> b0 = NOP"
    using assms(1) by (auto simp: read_args_def Let_def split: if_splits)
  show "b0 \<noteq> NOP \<Longrightarrow> unat index' = unat index + 2"
    using assms(1) lt u1 u2 ne
    by (auto simp: read_args_def Let_def split: if_splits)
  show "b0 = NOP \<Longrightarrow> a0 \<noteq> NOP \<Longrightarrow> unat index' = unat index + 1"
    using assms(1) lt u1 u2 ne
    by (auto simp: read_args_def Let_def split: if_splits)
qed


lemma unat_advance:
  fixes index' header_end :: "32 word" and len :: "8 word"
  assumes "unat index' \<le> unat header_end" and "\<not> header_end - index' < ucast len"
  shows "unat (index' + ucast len) = unat index' + unat len"
    and "unat index' + unat len \<le> unat header_end"
proof -
  have le: "index' \<le> header_end" using assms(1) by (simp add: word_le_nat_alt)
  have "unat (header_end - index') = unat header_end - unat index'"
    using le by (rule unat_sub)
  moreover have "unat (ucast len :: 32 word) = unat len"
    proof -
    have "unat len < 2 ^ 8" using unsigned_less [of len, where ?'a = nat] by simp
    then show ?thesis by (simp add: unsigned_ucast_eq take_bit_nat_eq_self)
  qed
  moreover have "unat (ucast len :: 32 word) \<le> unat (header_end - index')"
    using assms(2) by (simp add: word_less_nat_alt)
  ultimately show b: "unat index' + unat len \<le> unat header_end"
    using assms(1) by simp
  have "unat header_end < 2 ^ 32" using unsigned_less [of header_end, where ?'a = nat] by simp
  then have "unat index' + unat (ucast len :: 32 word) < 2 ^ LENGTH(32)"
    using b \<open>unat (ucast len :: 32 word) = unat len\<close> by simp
  then have "unat (index' + ucast len) = unat index' + unat (ucast len :: 32 word)"
    by (simp only: unat_add_lem [THEN iffD1])
  then show "unat (index' + ucast len) = unat index' + unat len"
    using \<open>unat (ucast len :: 32 word) = unat len\<close> by simp
qed

text \<open>
  The body of the \<^verbatim>\<open>while(index < header_end)\<close> loop of the option scan (lines 67-84).
  \<open>buffer\<close> is the pointer after the fixed header; \<open>a0\<close> and \<open>a1\<close> are \<open>args[0]\<close> and
  \<open>args[1]\<close>, which live across the rounds. The result is \<open>index\<close>, \<open>args\<close> and the
  segment after the round.
\<close>

definition scan_step ::
  "8 word list \<Rightarrow> 32 word \<Rightarrow> 32 word \<Rightarrow> 8 word \<Rightarrow> 8 word \<Rightarrow> TCP
    \<Rightarrow> error + (32 word \<times> 8 word \<times> 8 word \<times> TCP)"
where
  "scan_step buffer header_end index a0 a1 t =
     (case read_args buffer header_end index a0 a1 of
        Inl e \<Rightarrow> Inl e
      | Inr (index', b0, b1) \<Rightarrow>
          if b0 \<noteq> NOP \<and> b0 \<noteq> EOL then
            let len = b1 - 2 in
            if header_end - index' < ucast len then Inl not_enough_a
            else Inr (index' + ucast len, b0, len,
                      add_option b0 len (drop (unat index') buffer) t)
          else if b0 = EOL then Inr (header_end, b0, b1, t)
          else Inr (index', 0, b1, t))"

lemma scan_step_measure:
  assumes "scan_step buffer header_end index a0 a1 t = Inr (index', a0', a1', t')"
    and "index < header_end"
  shows "2 * (unat header_end - unat index') + (if a0' = NOP then 1 else 0)
           < 2 * (unat header_end - unat index) + (if a0 = NOP then 1 else (0::nat))"
proof -
  have lt: "unat index < unat header_end"
    using assms(2) by (simp add: word_less_nat_alt)
  from assms(1) obtain i b0 b1 where r: "read_args buffer header_end index a0 a1 = Inr (i, b0, b1)"
    by (auto simp: scan_step_def split: sum.splits)
  have le: "unat i \<le> unat header_end" by (rule read_args_bounds(1) [OF r assms(2)])
  consider (opt) "b0 \<noteq> NOP" "b0 \<noteq> EOL" | (eol) "b0 = EOL" | (nop) "b0 = NOP" by blast
  then show ?thesis
  proof cases
    case opt
    have i2: "unat i = unat index + 2" using read_args_bounds(4) [OF r assms(2)] opt by simp
    from assms(1) r opt have nlt: "\<not> header_end - i < ucast (b1 - 2)"
      and eq: "index' = i + ucast (b1 - 2)" "a0' = b0"
      by (auto simp: scan_step_def Let_def split: if_splits)
    have "unat (i + ucast (b1 - 2)) = unat i + unat (b1 - 2)"
      by (rule unat_advance(1) [OF le nlt])
    moreover have "unat i + unat (b1 - 2) \<le> unat header_end"
      by (rule unat_advance(2) [OF le nlt])
    ultimately show ?thesis using eq opt i2 by auto
  next
    case eol
    with assms(1) r have "index' = header_end" "a0' = EOL"
      by (auto simp: scan_step_def Let_def split: if_splits)
    then show ?thesis using lt by auto
  next
    case nop
    with assms(1) r have eq: "index' = i" "a0' = 0"
      by (auto simp: scan_step_def Let_def split: if_splits)
    show ?thesis
    proof (cases "a0 = NOP")
      case True
      then show ?thesis using read_args_bounds(3) [OF r assms(2)] eq by simp
    next
      case False
      then show ?thesis using read_args_bounds(5) [OF r assms(2) nop] eq lt by simp
    qed
  qed
qed

text \<open>
  The \<^verbatim>\<open>while(index < header_end)\<close> loop (lines 66-85). The result is the final
  \<open>index\<close> and the segment.
\<close>

function scan_options ::
  "8 word list \<Rightarrow> 32 word \<Rightarrow> 32 word \<Rightarrow> 8 word \<Rightarrow> 8 word \<Rightarrow> TCP \<Rightarrow> error + (32 word \<times> TCP)"
where
  "scan_options buffer header_end index a0 a1 t =
     (if index < header_end then
        (case scan_step buffer header_end index a0 a1 t of
           Inl e \<Rightarrow> Inl e
         | Inr (index', a0', a1', t') \<Rightarrow> scan_options buffer header_end index' a0' a1' t')
      else Inr (index, t))"
  by pat_completeness auto
termination
proof (relation "measure (\<lambda>(buffer, header_end, index, a0, a1, t).
          2 * (unat header_end - unat index) + (if a0 = NOP then 1 else 0))", goal_cases)
  case 1
  show ?case by simp
next
  case (2 buffer header_end index a0 a1 t x2 index' y a0' z a1' t')
  then have "scan_step buffer header_end index a0 a1 t = Inr (index', a0', a1', t')" by simp
  from scan_step_measure [OF this 2(1)] show ?case by simp
qed

text \<open>
  The states \<open>(index, args[0], args[1], segment)\<close> at which the loop stands before a round,
  from a given state: the state itself, and the state after a round run from such a state
  inside the options region.
\<close>

inductive scan_reaches ::
  "8 word list \<Rightarrow> 32 word \<Rightarrow> 32 word \<times> 8 word \<times> 8 word \<times> TCP
     \<Rightarrow> 32 word \<times> 8 word \<times> 8 word \<times> TCP \<Rightarrow> bool"
  for buffer :: "8 word list" and header_end :: "32 word"
where
  start: "scan_reaches buffer header_end s s"
| round: "scan_reaches buffer header_end s (index, a0, a1, t) \<Longrightarrow> index < header_end \<Longrightarrow>
          scan_step buffer header_end index a0 a1 t = Inr s' \<Longrightarrow>
          scan_reaches buffer header_end s s'"

code_pred scan_reaches .

text \<open>\<^verbatim>\<open>if(total_sz) inner_pdu(new RawPDU(buffer, total_sz))\<close> (lines 94-95).\<close>

definition make_inner :: "8 word list \<Rightarrow> 32 word \<Rightarrow> TCP \<Rightarrow> TCP" where
  "make_inner buffer total_sz t =
     (if total_sz \<noteq> 0 then t\<lparr>inner_pdu := Some (take (unat total_sz) buffer)\<rparr> else t)"

text \<open>
  The constructor from a buffer (lines 52-96). The pair \<^verbatim>\<open>(buffer, total_sz)\<close> is the
  list of the \<open>total_sz\<close> bytes it designates, so that \<open>total_sz\<close> is the length of the
  list as a \<^verbatim>\<open>uint32_t\<close>. The \<^verbatim>\<open>catch\<close> block frees the options and rethrows: the
  result is the error alone.
\<close>

definition TCP_from_buffer :: "8 word list \<Rightarrow> error + TCP" where
  "TCP_from_buffer buffer0 =
     (let total_sz0 = (of_nat (length buffer0) :: 32 word) in
      if total_sz0 < 20 then Inl not_enough_an
      else
        let hdr = tcphdr_of_bytes (take 20 buffer0);
            buffer = drop 20 buffer0;
            total_sz = total_sz0 - 20;
            t = \<lparr> tcp = hdr, options = [], options_size = 0, total_options_size = 0,
                  inner_pdu = None \<rparr>;
            header_end = (ucast (doff hdr) * 4 - 20 :: 32 word)
        in
          if total_sz \<ge> header_end then
            (case scan_options buffer header_end 0 0 0 t of
               Inl err \<Rightarrow> Inl err
             | Inr (index, t') \<Rightarrow>
                 Inr (make_inner (drop (unat index) buffer) (total_sz - index) t'))
          else Inr (make_inner buffer total_sz t))"

subsection \<open>Typed options: SACK\<close>

text \<open>
  \<^verbatim>\<open>TCP::add_sack_option\<close>: every edge is converted and laid out in a \<^verbatim>\<open>uint32_t\<close> array,
  whose bytes are handed to \<open>add_option\<close> with the length \<^verbatim>\<open>(uint8_t)(4 * edges.size())\<close>.
  For no edges the pointer is null (no bytes).
\<close>

definition add_sack_option :: "32 word list \<Rightarrow> TCP \<Rightarrow> TCP" where
  "add_sack_option edges t =
     add_option SACK (of_nat (4 * length edges))
       (concat (map (\<lambda>e. bytes_of_u32 (net_to_host_l e)) edges)) t"

text \<open>
  The loop of \<^verbatim>\<open>TCP::search_sack_option\<close>: \<open>n\<close> words are read from the pointer, each
  converted and pushed to the back of \<open>edges\<close>.
\<close>

fun read_edges :: "8 word list \<Rightarrow> nat \<Rightarrow> 32 word list \<Rightarrow> 32 word list" where
  "read_edges ptr 0 edges = edges"
| "read_edges ptr (Suc n) edges =
     read_edges (drop 4 ptr) n (edges @ [net_to_host_l (u32_of_bytes (take 4 ptr))])"

text \<open>
  \<^verbatim>\<open>bool TCP::search_sack_option(std::list<uint32_t> *edges)\<close>: the result and the list
  behind the pointer afterwards.
\<close>

definition search_sack_option :: "TCP \<Rightarrow> 32 word list \<Rightarrow> bool \<times> 32 word list" where
  "search_sack_option t edges =
     (case search_option SACK (options t) of
        None \<Rightarrow> (False, edges)
      | Some opt \<Rightarrow>
          if length_f opt mod 4 \<noteq> 0 then (False, edges)
          else (True, read_edges (case value_f opt of None \<Rightarrow> [] | Some v \<Rightarrow> v)
                        (unat (length_f opt div 4)) edges))"

subsection \<open>Copying\<close>

text \<open>
  The loop of \<^verbatim>\<open>TCP::copy_fields\<close> (lines 350-357): every option of \<open>other\<close> is copied,
  with a new value array when it has one, and pushed to the back of \<open>_options\<close>.
\<close>

fun copy_options :: "TCPOption list \<Rightarrow> TCPOption list \<Rightarrow> TCPOption list" where
  "copy_options [] dst = dst"
| "copy_options (it # rest) dst =
     copy_options rest
       (dst @ [\<lparr> option_f = option_f it, length_f = length_f it,
                 value_f = (case value_f it of None \<Rightarrow> None
                            | Some v \<Rightarrow> Some (take (unat (length_f it)) v)) \<rparr>])"

definition copy_fields :: "TCP \<Rightarrow> TCP \<Rightarrow> TCP" where
  "copy_fields other this =
     this\<lparr> tcp := tcp other,
           options := copy_options (options other) (options this),
           options_size := options_size other,
           total_options_size := total_options_size other \<rparr>"

text \<open>
  Modelled from the spec: the copy operations of the base class \<^verbatim>\<open>PDU\<close> (pdu.cpp is not
  among the sources) give the destination a copy of the nested payload.

  \<^verbatim>\<open>TCP::TCP(const TCP &other)\<close>: the members start default-constructed (an empty list
  of options; the integers are set by \<open>copy_fields\<close>).
\<close>

definition TCP_copy_ctor :: "TCP \<Rightarrow> TCP" where
  "TCP_copy_ctor other =
     copy_fields other
       \<lparr> tcp = zero_tcphdr, options = [], options_size = 0, total_options_size = 0,
         inner_pdu = inner_pdu other \<rparr>"

text \<open>\<^verbatim>\<open>TCP &TCP::operator=(const TCP &other)\<close>, for \<open>other\<close> an object apart from \<open>this\<close>.\<close>

definition TCP_assign :: "TCP \<Rightarrow> TCP \<Rightarrow> TCP" where
  "TCP_assign other this = copy_fields other (this\<lparr>inner_pdu := inner_pdu other\<rparr>)"

text \<open>\<^verbatim>\<open>TCP::clone_pdu\<close>: a default-constructed segment, then \<open>copy_fields\<close>.\<close>

definition clone_pdu :: "TCP \<Rightarrow> TCP" where
  "clone_pdu this = copy_fields this (TCP_ctor 0 0)"

subsection \<open>Serialization\<close>

text \<open>
  A write of \<open>bytes\<close> at offset \<open>pos\<close> of the destination region \<open>buf\<close>. A write that
  leaves the region is undefined in C++; here it is the error \<open>out_of_bounds\<close>.
\<close>

definition store_bytes :: "8 word list \<Rightarrow> nat \<Rightarrow> 8 word list \<Rightarrow> error + 8 word list" where
  "store_bytes buf pos bytes =
     (if pos + length bytes \<le> length buf
      then Inr (take pos buf @ bytes @ drop (pos + length bytes) buf)
      else Inl out_of_bounds)"

text \<open>
  \<^verbatim>\<open>uint8_t *TCPOption::write(uint8_t *buffer)\<close>: the region and the offset of \<open>buffer\<close> in
  it go in, the region and the offset of the returned pointer come out.
\<close>

definition TCPOption_write ::
  "TCPOption \<Rightarrow> 8 word list \<Rightarrow> nat \<Rightarrow> error + (8 word list \<times> nat)"
where
  "TCPOption_write opt buf pos =
     (if option_f opt = 1 then
        (case store_bytes buf pos [option_f opt] of
           Inl e \<Rightarrow> Inl e
         | Inr buf1 \<Rightarrow> Inr (buf1, pos + 1))
      else
        (case store_bytes buf pos [option_f opt, length_f opt + 2] of
           Inl e \<Rightarrow> Inl e
         | Inr buf1 \<Rightarrow>
             (case (case value_f opt of
                      None \<Rightarrow> Inr buf1
                    | Some v \<Rightarrow> store_bytes buf1 (pos + 2) (take (unat (length_f opt)) v)) of
                Inl e \<Rightarrow> Inl e
              | Inr buf2 \<Rightarrow> Inr (buf2, pos + unat (buf2 ! (pos + 1))))))"

fun write_options ::
  "TCPOption list \<Rightarrow> 8 word list \<Rightarrow> nat \<Rightarrow> error + (8 word list \<times> nat)"
where
  "write_options [] buf pos = Inr (buf, pos)"
| "write_options (it # rest) buf pos =
     (case TCPOption_write it buf pos of
        Inl e \<Rightarrow> Inl e
      | Inr (buf1, pos1) \<Rightarrow> write_options rest buf1 pos1)"

text \<open>
  The padding loop (lines 305-308); \<open>padding\<close> is a \<^verbatim>\<open>uint8_t\<close>, compared with the
  \<^verbatim>\<open>uint32_t\<close> counter.
\<close>

function write_padding ::
  "8 word \<Rightarrow> 32 word \<Rightarrow> 8 word list \<Rightarrow> nat \<Rightarrow> error + (8 word list \<times> nat)"
where
  "write_padding padding total_sz buf pos =
     (if ucast padding < total_sz then
        (case store_bytes buf pos [1] of
           Inl e \<Rightarrow> Inl e
         | Inr buf1 \<Rightarrow> write_padding (padding + 1) total_sz buf1 (pos + 1))
      else Inr (buf, pos))"
  by pat_completeness auto
termination
  by (relation "measure (\<lambda>(padding, total_sz, buf, pos). length buf - pos)")
    (auto simp: store_bytes_def split: if_splits)

text \<open>The carry loop (lines 316-317).\<close>

function fold_carries :: "32 word \<Rightarrow> 32 word" where
  "fold_carries checksum =
     (if drop_bit 16 checksum \<noteq> 0
      then fold_carries ((checksum AND 0xffff) + drop_bit 16 checksum)
      else checksum)"
  by pat_completeness auto

lemma fold_step_less:
  fixes checksum :: "32 word"
  assumes "drop_bit 16 checksum \<noteq> 0"
  shows "unat ((checksum AND 0xffff) + drop_bit 16 checksum) < unat checksum"
proof -
  have a: "unat (checksum AND 0xffff) = unat checksum mod 65536"
  proof -
    have "checksum AND 0xffff = take_bit 16 checksum"
      by (simp add: take_bit_eq_mask mask_eq_exp_minus_1)
    then show ?thesis by (simp add: take_bit_eq_mod unat_mod)
  qed
  have d: "unat (drop_bit 16 checksum) = unat checksum div 65536"
    by (simp add: drop_bit_eq_div unat_div)
  have pos: "0 < unat checksum div 65536"
  proof -
    have "0 < unat (drop_bit 16 checksum)" using assms by (simp add: unat_gt_0)
    then show ?thesis using d by simp
  qed
  have "unat ((checksum AND 0xffff) + drop_bit 16 checksum)
          \<le> unat (checksum AND 0xffff) + unat (drop_bit 16 checksum)"
    by (simp add: unat_word_ariths)
  also have "\<dots> = unat checksum mod 65536 + unat checksum div 65536"
    using a d by simp
  also have "\<dots> < unat checksum"
  proof -
    have "unat checksum = 65536 * (unat checksum div 65536) + unat checksum mod 65536"
      by simp
    then show ?thesis using pos by linarith
  qed
  finally show ?thesis .
qed

termination fold_carries
  by (relation "measure unat") (auto intro: fold_step_less)

text \<open>
  Modelled from the spec: \<^verbatim>\<open>Utils::do_checksum\<close> and \<^verbatim>\<open>Utils::pseudoheader_checksum\<close>
  (utils.cpp is not among the sources): the sum of the 16-bit big-endian words of a byte
  range (an odd last byte is the high byte of a word), and the sum of the 16-bit words
  of the two addresses, the protocol number and the length.
\<close>

fun do_checksum :: "8 word list \<Rightarrow> 32 word" where
  "do_checksum (a # b # rest) = (push_bit 8 (ucast a) OR ucast b) + do_checksum rest"
| "do_checksum [a] = push_bit 8 (ucast a)"
| "do_checksum [] = 0"

definition pseudoheader_checksum :: "32 word \<Rightarrow> 32 word \<Rightarrow> 32 word \<Rightarrow> 32 word \<Rightarrow> 32 word" where
  "pseudoheader_checksum source_ip dest_ip len flag =
     drop_bit 16 source_ip + (source_ip AND 0xffff) + drop_bit 16 dest_ip
       + (dest_ip AND 0xffff) + flag + len"

definition PROTO_TCP :: "32 word" where
  "PROTO_TCP = 6"

text \<open>
  The parent layer, as far as \<^verbatim>\<open>dynamic_cast<const Tins::IP*>(parent)\<close> tells layers
  apart: an IP layer with its two addresses, or a layer of another class. A null parent
  is \<open>None\<close>.
\<close>

datatype PDU = IP (src_addr: "32 word") (dst_addr: "32 word") | Other_PDU

text \<open>
  Modelled from the spec: \<^verbatim>\<open>PDU::size\<close> (pdu.cpp is not among the sources) is the size of
  this layer's header and of the nested payload.
\<close>

definition payload_bytes :: "TCP \<Rightarrow> 8 word list" where
  "payload_bytes t = (case inner_pdu t of None \<Rightarrow> [] | Some p \<Rightarrow> p)"

definition size_pdu :: "TCP \<Rightarrow> 32 word" where
  "size_pdu t = header_size t + of_nat (length (payload_bytes t))"

text \<open>The checksum branch of \<open>write_serialization\<close> (lines 313-319).\<close>

definition write_checksum ::
  "8 word list \<Rightarrow> 32 word \<Rightarrow> PDU option \<Rightarrow> TCP \<Rightarrow> error + 8 word list"
where
  "write_checksum buf total_sz parent t =
     (if check (tcp t) = 0 then
        (case parent of
           Some (IP src dst) \<Rightarrow>
             let checksum = fold_carries
                   (pseudoheader_checksum src dst (size_pdu t) PROTO_TCP
                     + do_checksum (take (unat total_sz) buf))
             in store_bytes buf 16 (bytes_of_u16 (net_to_host_s (ucast (NOT checksum))))
         | _ \<Rightarrow> Inr buf)
      else Inr buf)"

text \<open>
  \<^verbatim>\<open>TCP::write_serialization(uint8_t *buffer, uint32_t total_sz, const PDU *parent)\<close>:
  \<open>buffer\<close> is the destination region; the result is the region and the segment
  afterwards.
\<close>

definition write_serialization ::
  "8 word list \<Rightarrow> 32 word \<Rightarrow> PDU option \<Rightarrow> TCP \<Rightarrow> error + (8 word list \<times> TCP)"
where
  "write_serialization buffer total_sz parent t =
     (if total_sz < header_size t then Inl assertion_failed
      else
        let t1 = t\<lparr>tcp := (tcp t)\<lparr>doff := ucast ((20 + (ucast (total_options_size t) :: 64 word)) div 4)\<rparr>\<rparr> in
        case write_options (options t1) buffer 20 of
          Inl e \<Rightarrow> Inl e
        | Inr (buf1, pos1) \<Rightarrow>
            (case (if options_size t1 < total_options_size t1
                   then write_padding (ucast (options_size t1)) (total_options_size t1) buf1 pos1
                   else Inr (buf1, pos1)) of
               Inl e \<Rightarrow> Inl e
             | Inr (buf2, pos2) \<Rightarrow>
                 (case store_bytes buf2 0 (bytes_of_tcphdr (tcp t1)) of
                    Inl e \<Rightarrow> Inl e
                  | Inr buf3 \<Rightarrow>
                      (case write_checksum buf3 total_sz parent t1 of
                         Inl e \<Rightarrow> Inl e
                       | Inr buf4 \<Rightarrow> Inr (buf4, t1\<lparr>tcp := (tcp t1)\<lparr>check := 0\<rparr>\<rparr>)))))"

text \<open>
  Modelled from the spec: \<^verbatim>\<open>PDU::serialize\<close> (pdu.cpp is not among the sources) provides
  a region of \<open>header_size\<close> bytes followed by the nested payload, already serialized,
  and calls \<open>write_serialization\<close> on it.
\<close>

definition serialize :: "TCP \<Rightarrow> PDU option \<Rightarrow> error + (8 word list \<times> TCP)" where
  "serialize t parent =
     (let buffer = replicate (unat (header_size t)) 0 @ payload_bytes t
      in write_serialization buffer (of_nat (length buffer)) parent t)"

subsection \<open>Sequences of insertions and the sizes of the specification\<close>

text \<open>A sequence of calls of \<open>add_option\<close>, each with its kind, length and data.\<close>

fun add_options :: "(8 word \<times> 8 word \<times> 8 word list) list \<Rightarrow> TCP \<Rightarrow> TCP" where
  "add_options [] t = t"
| "add_options ((tcp_option, len, data) # rest) t =
     add_options rest (add_option tcp_option len data t)"

text \<open>
  The sizes as the specification derives them from the stored options: the sum of
  \<open>length + 2\<close>, and a size rounded up to the next multiple of 4.
\<close>

fun raw_size :: "TCPOption list \<Rightarrow> nat" where
  "raw_size [] = 0"
| "raw_size (opt # rest) = unat (length_f opt) + 2 + raw_size rest"

definition round_up4 :: "nat \<Rightarrow> nat" where
  "round_up4 n = (if n mod 4 = 0 then n else n - n mod 4 + 4)"

text \<open>
  The padded size that \<open>add_option\<close> computes from the new raw size (lines 287-288), and
  the relation that the two counters keep to the stored options.
\<close>

definition padded :: "32 word \<Rightarrow> 32 word" where
  "padded s = (if (ucast (s AND 3) :: 8 word) \<noteq> 0
               then s - ucast (ucast (s AND 3) :: 8 word) + 4 else s)"

definition sizes_inv :: "TCP \<Rightarrow> bool" where
  "sizes_inv t \<longleftrightarrow> options_size t = of_nat (raw_size (options t))
                   \<and> total_options_size t = padded (options_size t)"

text \<open>Whether \<^verbatim>\<open>dynamic_cast<const Tins::IP*>(parent)\<close> is a non-null pointer.\<close>

definition is_IP :: "PDU option \<Rightarrow> bool" where
  "is_IP parent = (case parent of Some (IP src dst) \<Rightarrow> True | _ \<Rightarrow> False)"

text \<open>
  The wire form of a stored option as the specification gives it (kind, length + 2,
  value), and the options whose fields \<open>TCPOption::write\<close> lays out in that form: the
  kind is not NOP, the length byte does not wrap, and the value array has \<open>length\<close>
  bytes (the null pointer for length 0).
\<close>

definition option_bytes :: "TCPOption \<Rightarrow> 8 word list" where
  "option_bytes opt =
     [option_f opt, length_f opt + 2] @ (case value_f opt of None \<Rightarrow> [] | Some v \<Rightarrow> v)"

definition wf_option :: "TCPOption \<Rightarrow> bool" where
  "wf_option opt \<longleftrightarrow>
     option_f opt \<noteq> NOP \<and> unat (length_f opt) + 2 < 256
     \<and> (case value_f opt of None \<Rightarrow> length_f opt = 0 | Some v \<Rightarrow> length v = unat (length_f opt))"

section \<open>Properties\<close>

declare scan_options.simps [simp del]
declare write_padding.simps [simp del]
declare fold_carries.simps [simp del]

subsection \<open>Memory images and byte order\<close>

lemma bytes_of_u16_of_bytes: "bytes_of_u16 (u16_of_bytes [a, b]) = [a, b]"
proof -
  have "ucast (u16_of_bytes [a, b]) = a"
    unfolding u16_of_bytes_def
    by (rule bit_word_eqI) (auto simp: bit_simps dest: bit_imp_le_length)
  moreover have "ucast (drop_bit 8 (u16_of_bytes [a, b])) = b"
    unfolding u16_of_bytes_def
    by (rule bit_word_eqI) (auto simp: bit_simps dest: bit_imp_le_length)
  ultimately show ?thesis by (simp add: bytes_of_u16_def)
qed

lemma u16_of_bytes_of_u16: "u16_of_bytes (bytes_of_u16 x) = x"
  unfolding bytes_of_u16_def u16_of_bytes_def
  by (rule bit_word_eqI) (auto simp: bit_simps)

lemma bytes_of_u32_of_bytes: "bytes_of_u32 (u32_of_bytes [a, b, c, d]) = [a, b, c, d]"
proof -
  have "ucast (u32_of_bytes [a, b, c, d]) = a"
    unfolding u32_of_bytes_def
    by (rule bit_word_eqI) (auto simp: bit_simps dest: bit_imp_le_length)
  moreover have "ucast (drop_bit 8 (u32_of_bytes [a, b, c, d])) = b"
    unfolding u32_of_bytes_def
    by (rule bit_word_eqI) (auto simp: bit_simps dest: bit_imp_le_length)
  moreover have "ucast (drop_bit 16 (u32_of_bytes [a, b, c, d])) = c"
    unfolding u32_of_bytes_def
    by (rule bit_word_eqI) (auto simp: bit_simps dest: bit_imp_le_length)
  moreover have "ucast (drop_bit 24 (u32_of_bytes [a, b, c, d])) = d"
    unfolding u32_of_bytes_def
    by (rule bit_word_eqI) (auto simp: bit_simps dest: bit_imp_le_length)
  ultimately show ?thesis by (simp add: bytes_of_u32_def)
qed

lemma u32_of_bytes_of_u32: "u32_of_bytes (bytes_of_u32 x) = x"
  unfolding bytes_of_u32_def u32_of_bytes_def
proof (rule bit_word_eqI)
  fix n :: nat
  assume n: "n < LENGTH(32)"
  consider "n < 8" | "8 \<le> n" "n < 16" | "16 \<le> n" "n < 24" | "24 \<le> n" "n < 32"
    using n by fastforce
  then show "bit (ucast ([ucast x, ucast (drop_bit 8 x), ucast (drop_bit 16 x), ucast (drop_bit 24 x) :: 8 word] ! 0)
                  OR push_bit 8 (ucast ([ucast x, ucast (drop_bit 8 x), ucast (drop_bit 16 x), ucast (drop_bit 24 x) :: 8 word] ! 1))
                  OR push_bit 16 (ucast ([ucast x, ucast (drop_bit 8 x), ucast (drop_bit 16 x), ucast (drop_bit 24 x) :: 8 word] ! 2))
                  OR push_bit 24 (ucast ([ucast x, ucast (drop_bit 8 x), ucast (drop_bit 16 x), ucast (drop_bit 24 x) :: 8 word] ! 3)) :: 32 word) n
             = bit x n"
    by cases (auto simp: bit_simps)
qed

lemma net_to_host_s_involution: "net_to_host_s (net_to_host_s x) = x"
  by (simp add: net_to_host_s_def bytes_of_u16_of_bytes [unfolded bytes_of_u16_def] u16_of_bytes_of_u16 [unfolded bytes_of_u16_def] bytes_of_u16_def)

lemma net_to_host_l_bytes: "bytes_of_u32 (net_to_host_l x) = rev (bytes_of_u32 x)"
  unfolding net_to_host_l_def
  by (simp add: bytes_of_u32_def bytes_of_u32_of_bytes [unfolded bytes_of_u32_def])

lemma net_to_host_l_involution: "net_to_host_l (net_to_host_l x) = x"
proof -
  have "net_to_host_l (net_to_host_l x) = u32_of_bytes (rev (bytes_of_u32 (net_to_host_l x)))"
    by (simp only: net_to_host_l_def)
  also have "\<dots> = u32_of_bytes (bytes_of_u32 x)" by (simp only: net_to_host_l_bytes rev_rev_ident)
  finally show ?thesis by (simp only: u32_of_bytes_of_u32)
qed

subsection \<open>Word arithmetic of the decoder\<close>

lemma unat_ucast_doff:
  fixes d :: "4 word"
  shows "unat (ucast d :: 32 word) = unat d" and "unat d < 16"
proof -
  show b: "unat d < 16" using unsigned_less [of d, where ?'a = nat] by simp
  then show "unat (ucast d :: 32 word) = unat d"
    by (simp add: unsigned_ucast_eq take_bit_nat_eq_self)
qed

lemma unat_doff_times_4:
  fixes d :: "4 word"
  shows "unat (ucast d * 4 :: 32 word) = unat d * 4"
proof -
  have "unat (ucast d :: 32 word) * unat (4 :: 32 word) < 2 ^ LENGTH(32)"
    using unat_ucast_doff [of d] by simp
  then have "unat (ucast d * 4 :: 32 word) = unat (ucast d :: 32 word) * unat (4 :: 32 word)"
    by (simp only: unat_mult_lem [THEN iffD1])
  then show ?thesis using unat_ucast_doff(1) [of d] by simp
qed

lemma unat_header_end:
  fixes d :: "4 word"
  assumes "5 \<le> unat d"
  shows "unat (ucast d * 4 - 20 :: 32 word) = unat d * 4 - 20"
proof -
  have "(20 :: 32 word) \<le> ucast d * 4"
    using assms by (simp add: word_le_nat_alt unat_doff_times_4)
  then have "unat (ucast d * 4 - 20 :: 32 word) = unat (ucast d * 4 :: 32 word) - unat (20 :: 32 word)"
    by (rule unat_sub)
  then show ?thesis by (simp add: unat_doff_times_4)
qed

lemma unat_header_end_small:
  fixes d :: "4 word"
  assumes "unat d < 5"
  shows "unat (ucast d * 4 - 20 :: 32 word) = 2 ^ 32 - 20 + unat d * 4"
proof -
  have lt: "(ucast d * 4 :: 32 word) < 20"
    using assms by (simp add: word_less_nat_alt unat_doff_times_4)
  have "unat (ucast d * 4 - 20 :: 32 word)
          = (if unat (20 :: 32 word) \<le> unat (ucast d * 4 :: 32 word)
             then unat (ucast d * 4 :: 32 word) - unat (20 :: 32 word)
             else unat (ucast d * 4 :: 32 word) + 2 ^ size (ucast d * 4 :: 32 word) - unat (20 :: 32 word))"
    by (rule unat_sub_if_size)
  then show ?thesis using assms by (simp add: unat_doff_times_4 word_size)
qed

lemma unat_total_sz:
  fixes buffer :: "8 word list"
  assumes "20 \<le> length buffer" and "length buffer < 2 ^ 32"
  shows "unat (of_nat (length buffer) :: 32 word) = length buffer"
    and "\<not> (of_nat (length buffer) :: 32 word) < 20"
    and "unat (of_nat (length buffer) - 20 :: 32 word) = length buffer - 20"
proof -
  show u: "unat (of_nat (length buffer) :: 32 word) = length buffer"
    using assms(2) by (simp add: unat_of_nat)
  then have le: "(20 :: 32 word) \<le> of_nat (length buffer)"
    using assms(1) by (simp add: word_le_nat_alt)
  then show "\<not> (of_nat (length buffer) :: 32 word) < 20" by simp
  have "unat (of_nat (length buffer) - 20 :: 32 word)
          = unat (of_nat (length buffer) :: 32 word) - unat (20 :: 32 word)"
    using le by (rule unat_sub)
  then show "unat (of_nat (length buffer) - 20 :: 32 word) = length buffer - 20"
    using u by simp
qed

subsection \<open>Buffers shorter than the fixed header\<close>

lemma of_nat_length_less_20:
  "length (buffer :: 8 word list) < 20 \<Longrightarrow> (of_nat (length buffer) :: 32 word) < 20"
proof -
  assume a: "length buffer < 20"
  then have "unat (of_nat (length buffer) :: 32 word) = length buffer"
    by (simp add: unat_of_nat)
  then show ?thesis using a by (simp add: word_less_nat_alt)
qed

text \<open>
  C8: decoding a buffer of fewer than 20 bytes throws the exception of line 54; the
  result is the error and no segment.
\<close>

theorem C8_short_buffer_fails:
  assumes "length buffer < 20"
  shows "TCP_from_buffer buffer
           = Inl (runtime_error ''Not enough size for an TCP header in the buffer.'')"
  using of_nat_length_less_20 [OF assms]
  by (simp add: TCP_from_buffer_def not_enough_an_def)

theorem C8_short_buffer_fails_witness:
  "length [0x01, 0xBB, 0x00 :: 8 word] < 20 \<and>
   TCP_from_buffer [0x01, 0xBB, 0x00]
     = Inl (runtime_error ''Not enough size for an TCP header in the buffer.'')"
  using C8_short_buffer_fails [of "[0x01, 0xBB, 0x00]"] by simp

subsection \<open>An options region longer than the buffer\<close>

text \<open>
  C2, as stated, fails: a buffer of exactly 20 bytes whose data offset is 6 declares four
  option bytes that are not there, and the constructor returns a segment.
\<close>

theorem C2_counterexample:
  "20 \<le> length [0x01, 0xBB, 0x00, 0x50, 0, 0, 0, 1, 0, 0, 0, 2, 0x60, 0x10, 0x7F, 0xA6, 0x12, 0x34, 0, 0 :: 8 word]
   \<and> TCP_from_buffer
     [0x01, 0xBB, 0x00, 0x50, 0, 0, 0, 1, 0, 0, 0, 2, 0x60, 0x10, 0x7F, 0xA6, 0x12, 0x34, 0, 0]
   = Inr \<lparr> tcp = \<lparr> sport = 0xBB01, dport = 0x5000, seq = 0x01000000, ack_seq = 0x02000000,
            res1 = 0, doff = 6, fin = 0, syn = 0, rst = 0, psh = 0, ack = 1, urg = 0, ece = 0,
            cwr = 0, window = 0xA67F, check = 0x3412, urg_ptr = 0 \<rparr>,
           options = [], options_size = 0, total_options_size = 0, inner_pdu = None \<rparr>"
  by (simp add: TCP_from_buffer_def tcphdr_of_bytes_def Let_def make_inner_def
      u16_of_bytes_def u32_of_bytes_def)


text \<open>
  C2, amended: when the data offset declares more option bytes than the buffer holds
  after the fixed header, the guard of line 64 skips the option scan; the constructor
  returns a segment with the header as read, no options, and every byte after the fixed
  header as the payload.
\<close>

theorem C2_truncated_options_region_skipped:
  assumes "20 \<le> length buffer" and "length buffer < 2 ^ 32"
    and "length buffer - 20 < unat (doff (tcphdr_of_bytes (take 20 buffer))) * 4 - 20"
  shows "TCP_from_buffer buffer
           = Inr \<lparr> tcp = tcphdr_of_bytes (take 20 buffer), options = [], options_size = 0,
                   total_options_size = 0,
                   inner_pdu = (if length buffer = 20 then None else Some (drop 20 buffer)) \<rparr>"
proof -
  let ?d = "doff (tcphdr_of_bytes (take 20 buffer))"
  let ?total_sz = "of_nat (length buffer) - 20 :: 32 word"
  let ?header_end = "ucast ?d * 4 - 20 :: 32 word"
  have d5: "5 \<le> unat ?d" using assms(3) by simp
  have he: "unat ?header_end = unat ?d * 4 - 20" using d5 by (rule unat_header_end)
  have ts: "unat ?total_sz = length buffer - 20" by (rule unat_total_sz(3) [OF assms(1,2)])
  have skip: "\<not> ?header_end \<le> ?total_sz"
    using assms(3) he ts by (simp add: word_le_nat_alt)
  have z: "?total_sz = 0 \<longleftrightarrow> length buffer = 20"
    using ts assms(1) by (metis diff_is_0_eq le_antisym unat_eq_zero diff_self_eq_0)
  have "make_inner (drop 20 buffer) ?total_sz
          \<lparr> tcp = tcphdr_of_bytes (take 20 buffer), options = [], options_size = 0,
            total_options_size = 0, inner_pdu = None \<rparr>
        = \<lparr> tcp = tcphdr_of_bytes (take 20 buffer), options = [], options_size = 0,
            total_options_size = 0,
            inner_pdu = (if length buffer = 20 then None else Some (drop 20 buffer)) \<rparr>"
    using z ts by (simp add: make_inner_def)
  then show ?thesis
    using unat_total_sz(2) [OF assms(1,2)] skip
    by (simp add: TCP_from_buffer_def Let_def)
qed


theorem C2_truncated_options_region_skipped_witness:
  "length [0x01, 0xBB, 0x00, 0x50, 0, 0, 0, 1, 0, 0, 0, 2, 0x70, 0x10, 0x7F, 0xA6, 0x12, 0x34,
           0, 0, 9 :: 8 word] - 20
     < unat (doff (tcphdr_of_bytes (take 20
         [0x01, 0xBB, 0x00, 0x50, 0, 0, 0, 1, 0, 0, 0, 2, 0x70, 0x10, 0x7F, 0xA6, 0x12, 0x34,
          0, 0, 9]))) * 4 - 20
   \<and> TCP_from_buffer
       [0x01, 0xBB, 0x00, 0x50, 0, 0, 0, 1, 0, 0, 0, 2, 0x70, 0x10, 0x7F, 0xA6, 0x12, 0x34,
        0, 0, 9]
     = Inr \<lparr> tcp = tcphdr_of_bytes
                     [0x01, 0xBB, 0x00, 0x50, 0, 0, 0, 1, 0, 0, 0, 2, 0x70, 0x10, 0x7F, 0xA6,
                      0x12, 0x34, 0, 0],
             options = [], options_size = 0, total_options_size = 0, inner_pdu = Some [9] \<rparr>"
proof -
  let ?b = "[0x01, 0xBB, 0x00, 0x50, 0, 0, 0, 1, 0, 0, 0, 2, 0x70, 0x10, 0x7F, 0xA6, 0x12, 0x34,
             0, 0, 9 :: 8 word]"
  have h1: "20 \<le> length ?b" by simp
  have h2: "length ?b < 2 ^ 32" by simp
  have h3: "length ?b - 20 < unat (doff (tcphdr_of_bytes (take 20 ?b))) * 4 - 20"
    by (simp add: tcphdr_of_bytes_def)
  show ?thesis
    using h3 C2_truncated_options_region_skipped [OF h1 h2 h3] by simp
qed

subsection \<open>END_OF_OPTIONS as the last byte of the options region\<close>

text \<open>
  C3: the inner loop reads a second byte after every kind other than NOP, so after EOL
  too. With EOL as the last byte of the options region (here a window-scale option and
  one byte of EOL padding) the read meets the end of the region and the constructor
  throws.
\<close>

theorem C3_eol_last_byte_throws:
  "TCP_from_buffer
     [0x01, 0xBB, 0x00, 0x50, 0, 0, 0, 1, 0, 0, 0, 2, 0x60, 0x10, 0x7F, 0xA6, 0x12, 0x34, 0, 0,
      3, 3, 7, 0]
   = Inl (runtime_error ''Not enough size for a TCP header in the buffer.'')"
  by (simp add: TCP_from_buffer_def tcphdr_of_bytes_def Let_def scan_options.simps
      scan_step_def read_args_def add_option_def not_enough_a_def)

text \<open>
  The two cases of a round that reads EOL: with a byte after it inside the region the
  scan jumps to the end of the region; as the last byte of the region it throws.
\<close>

lemma scan_step_eol_inside:
  assumes "index < header_end" and "a0 \<noteq> NOP" and "buffer ! unat index = EOL"
    and "index + 1 \<noteq> header_end"
  shows "scan_step buffer header_end index a0 a1 t
           = Inr (header_end, EOL, buffer ! unat (index + 1), t)"
  using assms by (simp add: scan_step_def read_args_def Let_def)

lemma scan_step_eol_last:
  assumes "index < header_end" and "a0 \<noteq> NOP" and "buffer ! unat index = EOL"
    and "index + 1 = header_end"
  shows "scan_step buffer header_end index a0 a1 t = Inl not_enough_a"
  using assms by (simp add: scan_step_def read_args_def Let_def)

subsection \<open>Total lengths 0 and 1\<close>

lemma scan_reaches_result:
  assumes "scan_reaches buffer header_end s s'"
  shows "(case s of (i, a0, a1, t) \<Rightarrow> scan_options buffer header_end i a0 a1 t)
       = (case s' of (i, a0, a1, t) \<Rightarrow> scan_options buffer header_end i a0 a1 t)"
  using assms
proof (induction rule: scan_reaches.induct)
  case (start s)
  show ?case by simp
next
  case (round s index a0 a1 t s')
  have "scan_options buffer header_end index a0 a1 t
          = (case s' of (i, a0, a1, t) \<Rightarrow> scan_options buffer header_end i a0 a1 t)"
    using round.hyps(2,3) by (subst scan_options.simps) (simp split: prod.splits)
  with round.IH show ?case by simp
qed

lemma scan_step_args0:
  assumes "scan_step buffer header_end index a0 a1 t = Inr (index', a0', a1', t')"
  shows "a0' \<noteq> NOP"
  using assms
  by (auto simp: scan_step_def Let_def split: sum.splits if_splits)

lemma scan_reaches_args0:
  assumes "scan_reaches buffer header_end s s'" and "fst (snd s) \<noteq> NOP"
  shows "fst (snd s') \<noteq> NOP"
  using assms
proof (induction rule: scan_reaches.induct)
  case (start s)
  then show ?case by simp
next
  case (round s index a0 a1 t s')
  obtain i' b0 b1 t' where s': "s' = (i', b0, b1, t')" by (cases s') auto
  from scan_step_args0 [OF round.hyps(3) [unfolded s']] show ?case by (simp add: s')
qed

lemma short_length_wraps:
  fixes b1 :: "8 word"
  assumes "b1 < 2"
  shows "254 \<le> unat (b1 - 2)"
proof -
  have "unat b1 < 2" using assms by (simp add: word_less_nat_alt)
  then have "unat b1 = 0 \<or> unat b1 = 1" by auto
  then have "b1 = 0 \<or> b1 = 1" by (auto simp: word_unat_eq_iff)
  moreover have z: "unat ((0 :: 8 word) - 2) = 254" by simp
  moreover have "(1 :: 8 word) - 2 = 255" by simp
  then have o: "unat ((1 :: 8 word) - 2) = 255" by (simp only: unat_numeral) simp
  ultimately show ?thesis
  proof (elim disjE)
    assume "b1 = 0"
    then have "unat (b1 - 2) = 254" using z by (simp only:)
    then show ?thesis by (simp only:)
  next
    assume "b1 = 1"
    then have "unat (b1 - 2) = 255" using o by (simp only:)
    then show ?thesis by (simp only:)
  qed
qed

lemma scan_step_short_length:
  assumes "index < header_end" and "unat header_end \<le> 40" and "a0 \<noteq> NOP"
    and "buffer ! unat index \<noteq> NOP" and "buffer ! unat index \<noteq> EOL"
    and "unat index + 1 < unat header_end"
    and "buffer ! (unat index + 1) < 2"
  shows "scan_step buffer header_end index a0 a1 t = Inl not_enough_a"
proof -
  have u1: "unat (index + 1) = unat index + 1" using assms(1) by (rule unat_succ_lt)
  have lt1: "index + 1 < header_end" using assms(6) u1 by (simp add: word_less_nat_alt)
  then have ne: "index + 1 \<noteq> header_end" by simp
  have u2: "unat (index + 1 + 1) = unat index + 2" using unat_succ_lt [OF lt1] u1 by simp
  have r: "read_args buffer header_end index a0 a1
             = Inr (index + 1 + 1, buffer ! unat index, buffer ! (unat index + 1))"
    using assms(1,3,4) ne u1 by (simp add: read_args_def Let_def)
  have "index + 1 + 1 \<le> header_end" using assms(6) u2 by (simp add: word_le_nat_alt)
  then have "unat (header_end - (index + 1 + 1)) = unat header_end - unat (index + 1 + 1)"
    by (rule unat_sub)
  then have room: "unat (header_end - (index + 1 + 1)) \<le> 40" using assms(2) by simp
  have "unat (ucast (buffer ! (unat index + 1) - 2) :: 32 word)
          = unat (buffer ! (unat index + 1) - 2)"
  proof -
    have "unat (buffer ! (unat index + 1) - 2) < 2 ^ 8"
      using unsigned_less [of "buffer ! (unat index + 1) - 2", where ?'a = nat] by simp
    then show ?thesis by (simp add: unsigned_ucast_eq take_bit_nat_eq_self)
  qed
  then have "254 \<le> unat (ucast (buffer ! (unat index + 1) - 2) :: 32 word)"
    using short_length_wraps [OF assms(7)] by simp
  then have "header_end - (index + 1 + 1) < ucast (buffer ! (unat index + 1) - 2)"
    using room by (simp add: word_less_nat_alt)
  then show ?thesis using r assms(4,5) by (simp add: scan_step_def Let_def)
qed

lemma scan_entered_header_end:
  fixes buffer :: "8 word list"
  assumes "20 \<le> length buffer" and "length buffer < 2 ^ 32"
    and "(ucast (d :: 4 word) * 4 - 20 :: 32 word) \<le> of_nat (length buffer) - 20"
  shows "5 \<le> unat d" and "unat (ucast d * 4 - 20 :: 32 word) \<le> 40"
    and "unat (ucast d * 4 - 20 :: 32 word) \<le> length buffer - 20"
proof -
  have ts: "unat (of_nat (length buffer) - 20 :: 32 word) = length buffer - 20"
    by (rule unat_total_sz(3) [OF assms(1,2)])
  have le: "unat (ucast d * 4 - 20 :: 32 word) \<le> length buffer - 20"
    using assms(3) ts by (simp add: word_le_nat_alt)
  show d5: "5 \<le> unat d"
  proof (rule ccontr)
    assume "\<not> 5 \<le> unat d"
    then have "unat (ucast d * 4 - 20 :: 32 word) = 2 ^ 32 - 20 + unat d * 4"
      using unat_header_end_small [of d] by simp
    then show False using le assms(2) by simp
  qed
  show "unat (ucast d * 4 - 20 :: 32 word) \<le> 40"
    using unat_header_end [OF d5] unat_ucast_doff(2) [of d] by simp
  show "unat (ucast d * 4 - 20 :: 32 word) \<le> length buffer - 20" by (rule le)
qed

text \<open>
  C10: when the scan stands at an option whose kind is neither NOP nor EOL and whose
  total-length byte is 0 or 1, the value length \<open>args[1] - 2\<close> wraps to 254 or 255,
  which is more than an options region of at most 40 bytes has left, and the constructor
  throws.
\<close>

theorem C10_short_total_length_fails:
  assumes "20 \<le> length buffer" and "length buffer < 2 ^ 32"
    and "header_end = ucast (doff (tcphdr_of_bytes (take 20 buffer))) * 4 - 20"
    and "header_end \<le> of_nat (length buffer) - 20"
    and "scan_reaches (drop 20 buffer) header_end
           (0, 0, 0, \<lparr> tcp = tcphdr_of_bytes (take 20 buffer), options = [], options_size = 0,
                        total_options_size = 0, inner_pdu = None \<rparr>)
           (index, a0, a1, t)"
    and "index < header_end"
    and "drop 20 buffer ! unat index \<noteq> NOP" and "drop 20 buffer ! unat index \<noteq> EOL"
    and "unat index + 1 < unat header_end"
    and "drop 20 buffer ! (unat index + 1) < 2"
  shows "254 \<le> unat (drop 20 buffer ! (unat index + 1) - 2) \<and>
         TCP_from_buffer buffer
           = Inl (runtime_error ''Not enough size for a TCP header in the buffer.'')"
proof -
  let ?t0 = "\<lparr> tcp = tcphdr_of_bytes (take 20 buffer), options = [], options_size = 0,
                total_options_size = 0, inner_pdu = None \<rparr>"
  have he40: "unat header_end \<le> 40"
    using scan_entered_header_end(2) [OF assms(1,2)] assms(3,4) by simp
  have a0: "a0 \<noteq> NOP" using scan_reaches_args0 [OF assms(5)] by simp
  have step: "scan_step (drop 20 buffer) header_end index a0 a1 t = Inl not_enough_a"
    by (rule scan_step_short_length [OF assms(6) he40 a0 assms(7,8,9,10)])
  have "scan_options (drop 20 buffer) header_end 0 0 0 ?t0
          = scan_options (drop 20 buffer) header_end index a0 a1 t"
    using scan_reaches_result [OF assms(5)] by simp
  also have "\<dots> = Inl not_enough_a"
    using assms(6) step by (subst scan_options.simps) simp
  finally have scan: "scan_options (drop 20 buffer) header_end 0 0 0 ?t0 = Inl not_enough_a" .
  have "TCP_from_buffer buffer = Inl not_enough_a"
    using unat_total_sz(2) [OF assms(1,2)] assms(4) scan
    by (simp add: TCP_from_buffer_def Let_def assms(3) [symmetric])
  then show ?thesis
    using short_length_wraps [OF assms(10)] by (simp add: not_enough_a_def)
qed


theorem C10_short_total_length_fails_witness:
  "scan_reaches
     (drop 20 [0x01, 0xBB, 0x00, 0x50, 0, 0, 0, 1, 0, 0, 0, 2, 0x70, 0x10, 0x7F, 0xA6, 0x12,
               0x34, 0, 0, 1, 2, 4, 5, 0xB4, 9, 0, 7]) 8
     (0, 0, 0, \<lparr> tcp = tcphdr_of_bytes (take 20
                   [0x01, 0xBB, 0x00, 0x50, 0, 0, 0, 1, 0, 0, 0, 2, 0x70, 0x10, 0x7F, 0xA6, 0x12,
                    0x34, 0, 0, 1, 2, 4, 5, 0xB4, 9, 0, 7]),
                 options = [], options_size = 0, total_options_size = 0, inner_pdu = None \<rparr>)
     (5, 2, 2,
      add_option 2 2 [5, 0xB4, 9, 0, 7]
        \<lparr> tcp = tcphdr_of_bytes (take 20
                   [0x01, 0xBB, 0x00, 0x50, 0, 0, 0, 1, 0, 0, 0, 2, 0x70, 0x10, 0x7F, 0xA6, 0x12,
                    0x34, 0, 0, 1, 2, 4, 5, 0xB4, 9, 0, 7]),
          options = [], options_size = 0, total_options_size = 0, inner_pdu = None \<rparr>)
   \<and> TCP_from_buffer
       [0x01, 0xBB, 0x00, 0x50, 0, 0, 0, 1, 0, 0, 0, 2, 0x70, 0x10, 0x7F, 0xA6, 0x12, 0x34, 0, 0,
        1, 2, 4, 5, 0xB4, 9, 0, 7]
     = Inl (runtime_error ''Not enough size for a TCP header in the buffer.'')"
proof -
  let ?b = "[0x01, 0xBB, 0x00, 0x50, 0, 0, 0, 1, 0, 0, 0, 2, 0x70, 0x10, 0x7F, 0xA6, 0x12, 0x34,
             0, 0, 1, 2, 4, 5, 0xB4, 9, 0, 7 :: 8 word]"
  let ?t0 = "\<lparr> tcp = tcphdr_of_bytes (take 20 ?b), options = [], options_size = 0,
                total_options_size = 0, inner_pdu = None \<rparr>"
  have h1: "20 \<le> length ?b" by simp
  have h2: "length ?b < 2 ^ 32" by simp
  have h3: "(8 :: 32 word) = ucast (doff (tcphdr_of_bytes (take 20 ?b))) * 4 - 20"
    by (simp add: tcphdr_of_bytes_def)
  have h4: "(8 :: 32 word) \<le> of_nat (length ?b) - 20" by simp
  have r1: "scan_reaches (drop 20 ?b) 8 (0, 0, 0, ?t0) (1, 0, 0, ?t0)"
    by (rule scan_reaches.round [OF scan_reaches.start])
      (simp_all add: scan_step_def read_args_def)
  have r2: "scan_reaches (drop 20 ?b) 8 (0, 0, 0, ?t0)
              (5, 2, 2, add_option 2 2 [5, 0xB4, 9, 0, 7] ?t0)"
    by (rule scan_reaches.round [OF r1]) (simp_all add: scan_step_def read_args_def)
  have h6: "(5 :: 32 word) < 8" by simp
  have h7: "drop 20 ?b ! unat (5 :: 32 word) \<noteq> NOP" by simp
  have h8: "drop 20 ?b ! unat (5 :: 32 word) \<noteq> EOL" by simp
  have h9: "unat (5 :: 32 word) + 1 < unat (8 :: 32 word)" by simp
  have h10: "drop 20 ?b ! (unat (5 :: 32 word) + 1) < 2" by simp
  show ?thesis
    using r2 C10_short_total_length_fails [OF h1 h2 h3 h4 r2 h6 h7 h8 h9 h10] by simp
qed


subsection \<open>The size counters\<close>

lemma unat_and_3:
  fixes s :: "32 word"
  shows "unat (s AND 3) = unat s mod 4"
proof -
  have "s AND 3 = take_bit 2 s"
    by (simp add: take_bit_eq_mask mask_eq_exp_minus_1)
  then show ?thesis by (simp add: take_bit_eq_mod unat_mod)
qed

lemma unat_padding:
  fixes s :: "32 word"
  shows "unat (ucast (s AND 3) :: 8 word) = unat s mod 4"
    and "unat (ucast (ucast (s AND 3) :: 8 word) :: 32 word) = unat s mod 4"
proof -
  have lt: "unat s mod 4 < 4" by simp
  show a: "unat (ucast (s AND 3) :: 8 word) = unat s mod 4"
    using lt by (simp add: unsigned_ucast_eq unat_and_3 take_bit_nat_eq_self)
  show "unat (ucast (ucast (s AND 3) :: 8 word) :: 32 word) = unat s mod 4"
    using lt a by (simp add: unsigned_ucast_eq [where w = "ucast (s AND 3) :: 8 word"] take_bit_nat_eq_self)
qed

lemma padded_props:
  fixes s :: "32 word"
  shows "padded s - s \<le> 3"
    and "unat (padded s) mod 4 = 0"
    and "unat s \<le> 2 ^ 32 - 4 \<Longrightarrow> unat (padded s) = round_up4 (unat s)"
proof -
  let ?p = "ucast (ucast (s AND 3) :: 8 word) :: 32 word"
  have up: "unat ?p = unat s mod 4" by (rule unat_padding(2))
  have z: "(ucast (s AND 3) :: 8 word) \<noteq> 0 \<longleftrightarrow> unat s mod 4 \<noteq> 0"
    using unat_padding(1) [of s] by (metis unat_eq_zero)
  show "padded s - s \<le> 3"
  proof (cases "unat s mod 4 = 0")
    case True
    then show ?thesis using z by (simp add: padded_def)
  next
    case False
    have "padded s - s = 4 - ?p" using False z by (simp add: padded_def)
    moreover have "?p \<le> 4" using up by (simp add: word_le_nat_alt)
    then have "unat (4 - ?p) = unat (4 :: 32 word) - unat ?p" by (rule unat_sub)
    then have "unat (4 - ?p) \<le> 3" using up False by simp
    ultimately show ?thesis by (simp add: word_le_nat_alt)
  qed
  have ple: "?p \<le> s" using up by (simp add: word_le_nat_alt)
  have sub: "unat (s - ?p) = unat s - unat s mod 4"
    using unat_sub [OF ple] up by simp
  have add4: "unat (s - ?p + 4) = (unat s - unat s mod 4 + 4) mod 2 ^ 32"
    using sub by (simp add: unat_word_ariths)
  show "unat (padded s) mod 4 = 0"
  proof (cases "unat s mod 4 = 0")
    case True
    then show ?thesis using z by (simp add: padded_def)
  next
    case False
    have "(4 :: nat) dvd 2 ^ 32" by simp
    then have "(unat s - unat s mod 4 + 4) mod 2 ^ 32 mod 4 = (unat s - unat s mod 4 + 4) mod 4"
      by (rule mod_mod_cancel)
    also have "\<dots> = 0" by (simp add: minus_mod_eq_mult_div)
    finally show ?thesis using False z add4 by (simp add: padded_def)
  qed
  show "unat (padded s) = round_up4 (unat s)" if "unat s \<le> 2 ^ 32 - 4"
  proof (cases "unat s mod 4 = 0")
    case True
    then show ?thesis using z by (simp add: padded_def round_up4_def)
  next
    case False
    have "unat s - unat s mod 4 + 4 < 2 ^ 32" using that False by simp
    then have "unat (s - ?p + 4) = unat s - unat s mod 4 + 4" using add4 by simp
    then show ?thesis using False z by (simp add: padded_def round_up4_def)
  qed
qed

lemma round_up4_bounds:
  shows "n \<le> round_up4 n" and "round_up4 n - n \<le> 3" and "round_up4 n mod 4 = 0"
proof -
  have a: "n mod 4 < 4" by simp
  have b: "n mod 4 \<le> n" by (rule mod_less_eq_dividend)
  have c: "round_up4 n = n \<or> (0 < n mod 4 \<and> round_up4 n = n - n mod 4 + 4)"
    by (simp add: round_up4_def)
  show "n \<le> round_up4 n" using a b c by linarith
  show "round_up4 n - n \<le> 3" using a b c by linarith
  show "round_up4 n mod 4 = 0" by (simp add: round_up4_def minus_mod_eq_mult_div)
qed

lemma add_option_sizes:
  "options_size (add_option k len d t) = options_size t + (ucast len + 2)"
  "total_options_size (add_option k len d t) = padded (options_size (add_option k len d t))"
  "options (add_option k len d t)
     = options t @ [\<lparr> option_f = k, length_f = len,
                        value_f = (if len \<noteq> 0 then Some (take (unat len) d) else None) \<rparr>]"
  by (simp_all add: add_option_def padded_def Let_def)

lemma raw_size_append: "raw_size (xs @ ys) = raw_size xs + raw_size ys"
  by (induction xs) simp_all

lemma sizes_inv_add_option:
  assumes "sizes_inv t"
  shows "sizes_inv (add_option k len d t)"
proof -
  have "(ucast len :: 32 word) = of_nat (unat len)" by simp
  then have "options_size t + (ucast len + 2) = of_nat (raw_size (options t) + (unat len + 2))"
    using assms by (simp add: sizes_inv_def)
  then show ?thesis
    by (simp add: sizes_inv_def add_option_sizes raw_size_append add.commute)
qed

lemma sizes_inv_add_options:
  "sizes_inv t \<Longrightarrow> sizes_inv (add_options adds t)"
  by (induction adds t rule: add_options.induct) (simp_all add: sizes_inv_add_option)

lemma sizes_inv_ctor: "sizes_inv (TCP_ctor dport_arg sport_arg)"
  by (simp add: sizes_inv_def TCP_ctor_def set_window_def set_data_offset_def set_sport_def
      set_dport_def padded_def)

subsection \<open>The SACK option\<close>

lemma search_option_append:
  "search_option k (xs @ [opt])
     = (case search_option k xs of
          Some x \<Rightarrow> Some x
        | None \<Rightarrow> if option_f opt = k then Some opt else None)"
  by (induction xs) simp_all

lemma length_bytes_of_u32 [simp]: "length (bytes_of_u32 x) = 4"
  by (simp add: bytes_of_u32_def)

lemma length_sack_bytes:
  "length (concat (map (\<lambda>e. bytes_of_u32 (net_to_host_l e)) edges)) = 4 * length edges"
  by (induction edges) simp_all

lemma read_edges_sack_bytes:
  "read_edges (concat (map (\<lambda>e. bytes_of_u32 (net_to_host_l e)) edges)) (length edges) out
     = out @ edges"
proof (induction edges arbitrary: out)
  case Nil
  show ?case by simp
next
  case (Cons e edges)
  have "net_to_host_l (u32_of_bytes (bytes_of_u32 (net_to_host_l e))) = e"
    by (simp only: u32_of_bytes_of_u32 net_to_host_l_involution)
  then show ?case using Cons.IH [of "out @ [e]"] by simp
qed

lemma sack_length_byte:
  assumes "4 * length (edges :: 32 word list) < 256"
  shows "unat (of_nat (4 * length edges) :: 8 word) = 4 * length edges"
    and "(of_nat (4 * length edges) :: 8 word) mod 4 = 0"
    and "unat ((of_nat (4 * length edges) :: 8 word) div 4) = length edges"
proof -
  have "unat (of_nat (4 * length edges) :: 8 word) = (4 * length edges) mod 2 ^ LENGTH(8)"
    by (rule unat_of_nat)
  then show u: "unat (of_nat (4 * length edges) :: 8 word) = 4 * length edges"
    using assms by (simp del: of_nat_mult)
  have "unat ((of_nat (4 * length edges) :: 8 word) mod 4) = 0"
    using u by (simp add: unat_mod del: of_nat_mult)
  then show "(of_nat (4 * length edges) :: 8 word) mod 4 = 0"
    by (simp add: unat_eq_zero del: of_nat_mult)
  show "unat ((of_nat (4 * length edges) :: 8 word) div 4) = length edges"
    using u by (simp add: unat_div del: of_nat_mult)
qed

lemma sack_round_trip:
  assumes "4 * length edges < 256" and "search_option SACK (options t) = None"
  shows "search_sack_option (add_sack_option edges t) out = (True, out @ edges)"
proof -
  let ?len = "of_nat (4 * length edges) :: 8 word"
  let ?bytes = "concat (map (\<lambda>e. bytes_of_u32 (net_to_host_l e)) edges)"
  let ?opt = "\<lparr> option_f = SACK, length_f = ?len,
                 value_f = (if ?len \<noteq> 0 then Some (take (unat ?len) ?bytes) else None) \<rparr>"
  have found: "search_option SACK (options (add_sack_option edges t)) = Some ?opt"
    using assms(2)
    by (simp add: add_sack_option_def add_option_def Let_def search_option_append del: of_nat_mult)
  have tk: "take (unat ?len) ?bytes = ?bytes"
    by (simp add: sack_length_byte(1) [OF assms(1)] length_sack_bytes del: of_nat_mult)
  have "read_edges (case value_f ?opt of None \<Rightarrow> [] | Some v \<Rightarrow> v) (length edges) out
          = out @ edges"
  proof (cases "?len = 0")
    case True
    then have "length edges = 0" using sack_length_byte(1) [OF assms(1)] by (simp del: of_nat_mult)
    then show ?thesis using True by (simp del: of_nat_mult)
  next
    case False
    then show ?thesis using tk read_edges_sack_bytes [of edges out] by (simp del: of_nat_mult)
  qed
  then show ?thesis
    using found sack_length_byte(2,3) [OF assms(1)]
    by (simp add: search_sack_option_def del: of_nat_mult)
qed

lemma sack_bad_length:
  assumes "search_option SACK (options t) = Some opt" and "unat (length_f opt) mod 4 \<noteq> 0"
  shows "search_sack_option t out = (False, out)"
proof -
  have "unat (length_f opt mod 4) = unat (length_f opt) mod 4" by (simp add: unat_mod)
  then have "length_f opt mod 4 \<noteq> 0" using assms(2) by (metis unat_eq_zero)
  then show ?thesis using assms(1) by (simp add: search_sack_option_def)
qed

lemma search_option_none:
  "(\<forall>x\<in>set xs. option_f x \<noteq> k) \<Longrightarrow> search_option k xs = None"
  by (induction xs) simp_all

lemma search_option_first:
  "(\<forall>x\<in>set pre. option_f x \<noteq> k) \<Longrightarrow> option_f opt = k \<Longrightarrow>
     search_option k (pre @ opt # post) = Some opt"
  by (induction pre) simp_all

text \<open>
  C7, as stated, fails: \<open>search_option\<close> returns the first SACK option, so on a segment
  that already holds a SACK option with the edge 1 the search after adding the edge 2
  returns the edge 1.
\<close>

theorem C7_counterexample:
  "search_sack_option (add_sack_option [2] (add_sack_option [1] (TCP_ctor 80 443))) []
     = (True, [1])
   \<and> [1 :: 32 word] \<noteq> [2]"
  by (simp add: search_sack_option_def add_sack_option_def add_option_def TCP_ctor_def
      set_window_def set_data_offset_def set_sport_def set_dport_def bytes_of_u32_def
      u32_of_bytes_def net_to_host_l_def)

text \<open>
  C7, amended: for a list of edges whose byte count fits the length byte, added to a
  segment none of whose stored options is a SACK option, the search pushes the list in
  its order to the back of the output list and returns true; and the search of a segment
  whose first SACK option has a length that is not a multiple of 4 returns false and
  leaves the output list alone.
\<close>

theorem C7_sack_round_trip:
  "(4 * length edges < 256 \<and> (\<forall>x\<in>set (options t). option_f x \<noteq> SACK) \<longrightarrow>
      search_sack_option (add_sack_option edges t) out = (True, out @ edges))
   \<and> (options t' = pre @ opt # post \<and> (\<forall>x\<in>set pre. option_f x \<noteq> SACK)
        \<and> option_f opt = SACK \<and> unat (length_f opt) mod 4 \<noteq> 0 \<longrightarrow>
      search_sack_option t' out' = (False, out'))"
proof (intro conjI impI)
  assume "4 * length edges < 256 \<and> (\<forall>x\<in>set (options t). option_f x \<noteq> SACK)"
  then have "4 * length edges < 256" and "search_option SACK (options t) = None"
    by (simp_all add: search_option_none)
  then show "search_sack_option (add_sack_option edges t) out = (True, out @ edges)"
    by (rule sack_round_trip)
next
  assume h: "options t' = pre @ opt # post \<and> (\<forall>x\<in>set pre. option_f x \<noteq> SACK)
        \<and> option_f opt = SACK \<and> unat (length_f opt) mod 4 \<noteq> 0"
  then have "search_option SACK (options t') = Some opt"
    by (simp add: search_option_first)
  moreover have "unat (length_f opt) mod 4 \<noteq> 0" using h by blast
  ultimately show "search_sack_option t' out' = (False, out')"
    by (rule sack_bad_length)
qed

theorem C7_sack_round_trip_witness:
  "search_sack_option
     (add_sack_option [100, 200, 300, 400] (add_option MSS 2 [5, 0xB4] (TCP_ctor 80 443))) [7]
     = (True, [7, 100, 200, 300, 400])
   \<and> options (add_option SACK 3 [1, 2, 3] (add_option MSS 2 [5, 0xB4] (TCP_ctor 80 443)))
       = [\<lparr> option_f = MSS, length_f = 2, value_f = Some [5, 0xB4] \<rparr>]
         @ \<lparr> option_f = SACK, length_f = 3, value_f = Some [1, 2, 3] \<rparr> # []
   \<and> search_sack_option
       (add_option SACK 3 [1, 2, 3] (add_option MSS 2 [5, 0xB4] (TCP_ctor 80 443))) [7]
     = (False, [7])"
proof -
  let ?t = "add_option MSS 2 [5, 0xB4] (TCP_ctor 80 443)"
  have o: "options ?t = [\<lparr> option_f = MSS, length_f = 2, value_f = Some [5, 0xB4] \<rparr>]"
    by (simp add: add_option_sizes(3) TCP_ctor_def set_window_def set_data_offset_def
        set_sport_def set_dport_def)
  have h1: "4 * length [100, 200, 300, 400 :: 32 word] < 256
            \<and> (\<forall>x\<in>set (options ?t). option_f x \<noteq> SACK)"
    by (simp add: o)
  have o': "options (add_option SACK 3 [1, 2, 3] ?t)
              = [\<lparr> option_f = MSS, length_f = 2, value_f = Some [5, 0xB4] \<rparr>]
                @ \<lparr> option_f = SACK, length_f = 3, value_f = Some [1, 2, 3] \<rparr> # []"
    using o by (simp add: add_option_sizes(3))
  have h2: "options (add_option SACK 3 [1, 2, 3] ?t)
              = [\<lparr> option_f = MSS, length_f = 2, value_f = Some [5, 0xB4] \<rparr>]
                @ \<lparr> option_f = SACK, length_f = 3, value_f = Some [1, 2, 3] \<rparr> # []
            \<and> (\<forall>x\<in>set [\<lparr> option_f = MSS, length_f = 2, value_f = Some [5, 0xB4] \<rparr>].
                  option_f x \<noteq> SACK)
            \<and> option_f \<lparr> option_f = SACK, length_f = 3, value_f = Some [1, 2, 3] \<rparr> = SACK
            \<and> unat (length_f \<lparr> option_f = SACK, length_f = 3, value_f = Some [1, 2, 3] \<rparr>)
                 mod 4 \<noteq> 0"
    using o' by simp
  have a: "search_sack_option (add_sack_option [100, 200, 300, 400] ?t) [7]
             = (True, [7] @ [100, 200, 300, 400])"
    using C7_sack_round_trip [where edges = "[100, 200, 300, 400]" and t = ?t and out = "[7]",
        THEN conjunct1] h1
    by (rule mp)
  have b: "search_sack_option (add_option SACK 3 [1, 2, 3] ?t) [7] = (False, [7])"
    using C7_sack_round_trip [where t' = "add_option SACK 3 [1, 2, 3] ?t"
        and pre = "[\<lparr> option_f = MSS, length_f = 2, value_f = Some [5, 0xB4] \<rparr>]"
        and opt = "\<lparr> option_f = SACK, length_f = 3, value_f = Some [1, 2, 3] \<rparr>"
        and post = "[]" and out' = "[7]", THEN conjunct2] h2
    by (rule mp)
  show ?thesis using a b o' by simp
qed

subsection \<open>A constructed segment on the wire\<close>

lemmas ctor_defs = TCP_ctor_def set_window_def set_data_offset_def set_sport_def set_dport_def
  zero_tcphdr_def DEFAULT_WINDOW_def

lemmas byte_defs = bytes_of_tcphdr_def bytes_of_u16_def bytes_of_u32_def u16_of_bytes_def
  u32_of_bytes_def net_to_host_s_def net_to_host_l_def

text \<open>
  C9, as stated, fails: the first argument of the constructor is the destination port,
  and the source port comes first on the wire, so the segment constructed with (80, 443)
  begins 01 BB 00 50 and not 00 50 01 BB.
\<close>

theorem C9_counterexample:
  "serialize (TCP_ctor 80 443) None
     = Inr ([0x01, 0xBB, 0x00, 0x50, 0, 0, 0, 0, 0, 0, 0, 0, 0x50, 0, 0x7F, 0xA6, 0, 0, 0, 0],
            TCP_ctor 80 443)
   \<and> take 4 [0x01, 0xBB, 0x00, 0x50, 0, 0, 0, 0, 0, 0, 0, 0, 0x50, 0, 0x7F, 0xA6, 0, 0, 0, 0 :: 8 word]
       \<noteq> [0x00, 0x50, 0x01, 0xBB]"
  by (simp add: serialize_def write_serialization_def write_checksum_def store_bytes_def
      header_size_def payload_bytes_def ctor_defs byte_defs Let_def)

lemma ctor_80_443:
  "TCP_ctor 80 443
     = \<lparr> tcp = \<lparr> sport = 0xBB01, dport = 0x5000, seq = 0, ack_seq = 0, res1 = 0, doff = 5, fin = 0,
                syn = 0, rst = 0, psh = 0, ack = 0, urg = 0, ece = 0, cwr = 0, window = 0xA67F,
                check = 0, urg_ptr = 0 \<rparr>,
         options = [], options_size = 0, total_options_size = 0, inner_pdu = None \<rparr>"
  by (simp add: ctor_defs byte_defs)

lemma hdr_bytes_80_443:
  "bytes_of_tcphdr \<lparr> sport = 0xBB01, dport = 0x5000, seq = 0, ack_seq = 0, res1 = 0, doff = 5,
       fin = 0, syn = 0, rst = 0, psh = 0, ack = 0, urg = 0, ece = 0, cwr = 0, window = 0xA67F,
       check = 0, urg_ptr = 0 \<rparr>
     = [0x01, 0xBB, 0x00, 0x50, 0, 0, 0, 0, 0, 0, 0, 0, 0x50, 0, 0x7F, 0xA6, 0, 0, 0, 0]"
  by (simp add: byte_defs)

lemma length_bytes_of_u16 [simp]: "length (bytes_of_u16 x) = 2"
  by (simp add: bytes_of_u16_def)

lemma serialize_ctor_80_443:
  "serialize (TCP_ctor 80 443) parent
     = Inr ([0x01, 0xBB, 0x00, 0x50, 0, 0, 0, 0, 0, 0, 0, 0, 0x50, 0, 0x7F, 0xA6]
              @ (case parent of
                   Some (IP src dst) \<Rightarrow>
                     bytes_of_u16 (net_to_host_s (ucast (NOT (fold_carries
                       (pseudoheader_checksum src dst 20 PROTO_TCP
                         + do_checksum [0x01, 0xBB, 0x00, 0x50, 0, 0, 0, 0, 0, 0, 0, 0, 0x50, 0,
                                        0x7F, 0xA6, 0, 0, 0, 0])))))
                 | _ \<Rightarrow> [0, 0])
              @ [0, 0],
            TCP_ctor 80 443)"
  unfolding ctor_80_443
  by (simp add: serialize_def write_serialization_def write_checksum_def store_bytes_def
      header_size_def payload_bytes_def size_pdu_def hdr_bytes_80_443 Let_def
      split: option.splits PDU.splits)

text \<open>
  C9, amended: under any parent the segment constructed with (80, 443) serializes to 20
  bytes that begin 01 BB 00 50 (source port 443, then destination port 80), with data
  offset 5 in the high half of byte 12, \<open>header_size\<close> 20 and the window 32678 (bytes
  7F A6).
\<close>

theorem C9_ctor_80_443_serialized:
  "\<exists>bytes t'. serialize (TCP_ctor 80 443) parent = Inr (bytes, t')
      \<and> take 4 bytes = [0x01, 0xBB, 0x00, 0x50]
      \<and> drop_bit 4 (bytes ! 12) = 5
      \<and> length bytes = 20
      \<and> header_size (TCP_ctor 80 443) = 20
      \<and> take 2 (drop 14 bytes) = [0x7F, 0xA6]
      \<and> net_to_host_s (window (tcp (TCP_ctor 80 443))) = 32678"
  unfolding serialize_ctor_80_443
  by (simp add: ctor_80_443 header_size_def byte_defs split: option.splits PDU.splits)

subsection \<open>The checksum\<close>

lemma length_bytes_of_tcphdr [simp]: "length (bytes_of_tcphdr h) = 20"
  by (simp add: bytes_of_tcphdr_def bytes_of_u32_def)

lemma bytes_of_tcphdr_split:
  "\<exists>front. length front = 16
     \<and> bytes_of_tcphdr h = front @ bytes_of_u16 (check h) @ bytes_of_u16 (urg_ptr h)"
proof -
  let ?front = "bytes_of_u16 (sport h) @ bytes_of_u16 (dport h) @ bytes_of_u32 (seq h)
     @ bytes_of_u32 (ack_seq h)
     @ [ucast (res1 h) OR push_bit 4 (ucast (doff h)),
        ucast (fin h) OR push_bit 1 (ucast (syn h)) OR push_bit 2 (ucast (rst h))
          OR push_bit 3 (ucast (psh h)) OR push_bit 4 (ucast (ack h))
          OR push_bit 5 (ucast (urg h)) OR push_bit 6 (ucast (ece h))
          OR push_bit 7 (ucast (cwr h))]
     @ bytes_of_u16 (window h)"
  have "length ?front = 16" by (simp add: bytes_of_u32_def)
  moreover have "bytes_of_tcphdr h = ?front @ bytes_of_u16 (check h) @ bytes_of_u16 (urg_ptr h)"
    by (simp add: bytes_of_tcphdr_def)
  ultimately show ?thesis by blast
qed

lemma write_serialization_header:
  assumes "write_serialization buffer total_sz parent t = Inr (buf', t')"
  obtains t1 buf3 where
    "t1 = t\<lparr>tcp := (tcp t)\<lparr>doff := ucast ((20 + (ucast (total_options_size t) :: 64 word)) div 4)\<rparr>\<rparr>"
    and "20 \<le> length buf3"
    and "take 20 buf3 = bytes_of_tcphdr (tcp t1)"
    and "write_checksum buf3 total_sz parent t1 = Inr buf'"
    and "t' = t1\<lparr>tcp := (tcp t1)\<lparr>check := 0\<rparr>\<rparr>"
proof -
  let ?t1 = "t\<lparr>tcp := (tcp t)\<lparr>doff := ucast ((20 + (ucast (total_options_size t) :: 64 word)) div 4)\<rparr>\<rparr>"
  from assms obtain buf2 buf3 where
    s: "store_bytes buf2 0 (bytes_of_tcphdr (tcp ?t1)) = Inr buf3"
    and w: "write_checksum buf3 total_sz parent ?t1 = Inr buf'"
    and t': "t' = ?t1\<lparr>tcp := (tcp ?t1)\<lparr>check := 0\<rparr>\<rparr>"
    by (auto simp: write_serialization_def Let_def split: if_splits sum.splits prod.splits)
  from s have "20 \<le> length buf3" "take 20 buf3 = bytes_of_tcphdr (tcp ?t1)"
    by (auto simp: store_bytes_def split: if_splits)
  then show ?thesis using that [of ?t1 buf3] w t' by simp
qed


lemma checksum_region:
  assumes "20 \<le> length buf3" and "take 20 buf3 = bytes_of_tcphdr h"
  obtains front rest where "length front = 16"
    and "buf3 = front @ bytes_of_u16 (check h) @ rest"
proof -
  from bytes_of_tcphdr_split [of h] obtain front where
    f: "length front = 16"
    and hb: "bytes_of_tcphdr h = front @ bytes_of_u16 (check h) @ bytes_of_u16 (urg_ptr h)"
    by blast
  have "buf3 = take 20 buf3 @ drop 20 buf3" by simp
  then have "buf3 = front @ bytes_of_u16 (check h) @ (bytes_of_u16 (urg_ptr h) @ drop 20 buf3)"
    using assms(2) hb by simp
  then show ?thesis using that f by blast
qed

lemma store_checksum_bytes:
  assumes "length front = 16" and "length old = 2" and "length cs = 2"
  shows "store_bytes (front @ old @ rest) 16 cs = Inr (front @ cs @ rest)"
  using assms by (simp add: store_bytes_def)

lemma read_checksum_bytes:
  assumes "length front = 16" and "length cs = 2"
  shows "take 2 (drop 16 (front @ cs @ rest)) = cs"
  using assms by simp

lemma zero_checksum_bytes:
  assumes "length front = 16" and "length cs = 2"
  shows "(front @ cs @ rest)[16 := 0, 17 := 0] = front @ bytes_of_u16 0 @ rest"
proof -
  from assms(2) obtain c1 c2 where cs: "cs = [c1, c2]"
    by (cases cs; cases "tl cs") auto
  show ?thesis using assms(1) by (simp add: cs list_update_append bytes_of_u16_def)
qed

lemma size_pdu_doff [simp]: "size_pdu (t\<lparr>tcp := h\<rparr>) = size_pdu t"
  by (simp add: size_pdu_def header_size_def payload_bytes_def)

lemma write_serialization_checksum:
  assumes "write_serialization buffer total_sz parent t = Inr (buf', t')"
  shows "check (tcp t') = 0"
    and "check (tcp t) = 0 \<Longrightarrow> parent = Some (IP src dst) \<Longrightarrow>
           take 2 (drop 16 buf')
             = bytes_of_u16 (net_to_host_s (ucast (NOT (fold_carries
                 (pseudoheader_checksum src dst (size_pdu t) PROTO_TCP
                   + do_checksum (take (unat total_sz) (buf'[16 := 0, 17 := 0])))))))"
    and "check (tcp t) \<noteq> 0 \<or> \<not> is_IP parent \<Longrightarrow>
           take 2 (drop 16 buf') = bytes_of_u16 (check (tcp t))"
proof -
  from assms obtain t1 buf3 where
    t1: "t1 = t\<lparr>tcp := (tcp t)\<lparr>doff := ucast ((20 + (ucast (total_options_size t) :: 64 word)) div 4)\<rparr>\<rparr>"
    and len: "20 \<le> length buf3"
    and hdr: "take 20 buf3 = bytes_of_tcphdr (tcp t1)"
    and w: "write_checksum buf3 total_sz parent t1 = Inr buf'"
    and t': "t' = t1\<lparr>tcp := (tcp t1)\<lparr>check := 0\<rparr>\<rparr>"
    by (rule write_serialization_header)
  show "check (tcp t') = 0" by (simp add: t')
  have ck: "check (tcp t1) = check (tcp t)" by (simp add: t1)
  have sz: "size_pdu t1 = size_pdu t" by (simp add: t1)
  from checksum_region [OF len hdr] obtain front rest where
    f: "length front = 16" and b3: "buf3 = front @ bytes_of_u16 (check (tcp t)) @ rest"
    unfolding ck by blast
  show "take 2 (drop 16 buf')
          = bytes_of_u16 (net_to_host_s (ucast (NOT (fold_carries
              (pseudoheader_checksum src dst (size_pdu t) PROTO_TCP
                + do_checksum (take (unat total_sz) (buf'[16 := 0, 17 := 0])))))))"
    if z: "check (tcp t) = 0" and p: "parent = Some (IP src dst)"
  proof -
    let ?cs = "bytes_of_u16 (net_to_host_s (ucast (NOT (fold_carries
                 (pseudoheader_checksum src dst (size_pdu t) PROTO_TCP
                   + do_checksum (take (unat total_sz) buf3))))))"
    have "write_checksum buf3 total_sz parent t1 = store_bytes buf3 16 ?cs"
      using z p ck sz by (simp add: write_checksum_def Let_def)
    also have "\<dots> = Inr (front @ ?cs @ rest)"
      unfolding b3 by (rule store_checksum_bytes [OF f]) simp_all
    finally have b': "buf' = front @ ?cs @ rest" using w by simp
    have "buf'[16 := 0, 17 := 0] = front @ bytes_of_u16 0 @ rest"
      unfolding b' by (rule zero_checksum_bytes [OF f]) simp
    then have restored: "buf'[16 := 0, 17 := 0] = buf3" using b3 z by simp
    have "take 2 (drop 16 buf') = ?cs"
      unfolding b' by (rule read_checksum_bytes [OF f]) simp
    then show ?thesis unfolding restored .
  qed
  show "take 2 (drop 16 buf') = bytes_of_u16 (check (tcp t))"
    if "check (tcp t) \<noteq> 0 \<or> \<not> is_IP parent"
  proof -
    have "write_checksum buf3 total_sz parent t1 = Inr buf3"
      using that ck
      by (auto simp: write_checksum_def is_IP_def split: option.splits PDU.splits)
    then have "buf' = buf3" using w by simp
    then show ?thesis
      using read_checksum_bytes [OF f, of "bytes_of_u16 (check (tcp t))" rest] b3 by simp
  qed
qed

text \<open>
  C4, as stated, fails in its second part: with a checksum set by the caller and a parent
  that is no IP layer, the checksum bytes on the wire are the caller's and not zero.
\<close>

theorem C4_counterexample:
  "serialize (set_check 0x1234 (TCP_ctor 80 443)) None
     = Inr ([0x01, 0xBB, 0x00, 0x50, 0, 0, 0, 0, 0, 0, 0, 0, 0x50, 0, 0x7F, 0xA6, 0x12, 0x34, 0, 0],
            TCP_ctor 80 443)
   \<and> take 2 (drop 16 [0x01, 0xBB, 0x00, 0x50, 0, 0, 0, 0, 0, 0, 0, 0, 0x50, 0, 0x7F, 0xA6, 0x12,
                        0x34, 0, 0 :: 8 word]) \<noteq> [0, 0]"
  by (simp add: serialize_def write_serialization_def write_checksum_def store_bytes_def
      header_size_def payload_bytes_def set_check_def ctor_defs byte_defs Let_def)



text \<open>
  C4, amended: when \<open>write_serialization\<close> returns, the stored checksum is zero. If the
  stored checksum was zero before and the parent is an IP layer, the checksum bytes are
  the complement of the folded sum of the pseudo-header and of the region with a zero
  checksum field; otherwise they are the stored checksum as it was (zero if it was zero).
  A second pass under an IP parent therefore computes the checksum again.
\<close>

theorem C4_checksum_written:
  assumes "write_serialization buffer total_sz parent t = Inr (buf', t')"
  shows "check (tcp t') = 0
    \<and> (check (tcp t) = 0 \<and> parent = Some (IP src dst) \<longrightarrow>
         take 2 (drop 16 buf')
           = bytes_of_u16 (net_to_host_s (ucast (NOT (fold_carries
               (pseudoheader_checksum src dst (size_pdu t) PROTO_TCP
                 + do_checksum (take (unat total_sz) (buf'[16 := 0, 17 := 0]))))))))
    \<and> (check (tcp t) \<noteq> 0 \<or> \<not> is_IP parent \<longrightarrow>
         take 2 (drop 16 buf') = bytes_of_u16 (check (tcp t)))
    \<and> (check (tcp t) = 0 \<and> \<not> is_IP parent \<longrightarrow> take 2 (drop 16 buf') = [0, 0])
    \<and> (write_serialization buffer2 total_sz2 (Some (IP src2 dst2)) t' = Inr (buf2, t2) \<longrightarrow>
         take 2 (drop 16 buf2)
           = bytes_of_u16 (net_to_host_s (ucast (NOT (fold_carries
               (pseudoheader_checksum src2 dst2 (size_pdu t') PROTO_TCP
                 + do_checksum (take (unat total_sz2) (buf2[16 := 0, 17 := 0]))))))))"
proof -
  have a: "check (tcp t') = 0" by (rule write_serialization_checksum(1) [OF assms])
  have e: "take 2 (drop 16 buf2)
           = bytes_of_u16 (net_to_host_s (ucast (NOT (fold_carries
               (pseudoheader_checksum src2 dst2 (size_pdu t') PROTO_TCP
                 + do_checksum (take (unat total_sz2) (buf2[16 := 0, 17 := 0])))))))"
    if "write_serialization buffer2 total_sz2 (Some (IP src2 dst2)) t' = Inr (buf2, t2)"
    by (rule write_serialization_checksum(2) [OF that a refl])
  have d: "take 2 (drop 16 buf') = [0, 0]" if "check (tcp t) = 0 \<and> \<not> is_IP parent"
    using write_serialization_checksum(3) [OF assms, of] that by (simp add: bytes_of_u16_def)
  show ?thesis
    using a e d write_serialization_checksum(2) [OF assms, of src dst]
      write_serialization_checksum(3) [OF assms]
    by blast
qed

theorem C4_checksum_written_witness:
  "write_serialization (replicate 20 0) 20 (Some (IP 0x0A000001 0x0A000002)) (TCP_ctor 80 443)
     = Inr ([0x01, 0xBB, 0x00, 0x50, 0, 0, 0, 0, 0, 0, 0, 0, 0x50, 0, 0x7F, 0xA6, 0x1A, 0x31, 0, 0],
            TCP_ctor 80 443)
   \<and> check (tcp (TCP_ctor 80 443)) = 0
   \<and> take 2 (drop 16 [0x01, 0xBB, 0x00, 0x50, 0, 0, 0, 0, 0, 0, 0, 0, 0x50, 0, 0x7F, 0xA6, 0x1A,
                        0x31, 0, 0 :: 8 word])
       = bytes_of_u16 (net_to_host_s (ucast (NOT (fold_carries
           (pseudoheader_checksum 0x0A000001 0x0A000002 (size_pdu (TCP_ctor 80 443)) PROTO_TCP
             + do_checksum (take (unat (20 :: 32 word))
                 ([0x01, 0xBB, 0x00, 0x50, 0, 0, 0, 0, 0, 0, 0, 0, 0x50, 0, 0x7F, 0xA6, 0x1A, 0x31,
                   0, 0] [16 := 0, 17 := 0])))))))"
proof -
  have h: "write_serialization (replicate 20 0) 20 (Some (IP 0x0A000001 0x0A000002))
             (TCP_ctor 80 443)
           = Inr ([0x01, 0xBB, 0x00, 0x50, 0, 0, 0, 0, 0, 0, 0, 0, 0x50, 0, 0x7F, 0xA6, 0x1A, 0x31,
                   0, 0], TCP_ctor 80 443)"
    by (simp add: write_serialization_def write_checksum_def store_bytes_def
        header_size_def payload_bytes_def size_pdu_def pseudoheader_checksum_def PROTO_TCP_def
        fold_carries.simps ctor_defs byte_defs Let_def)
  have z: "check (tcp (TCP_ctor 80 443)) = 0" by (simp add: ctor_defs)
  show ?thesis
    using h z
      C4_checksum_written [OF h, of "0x0A000001" "0x0A000002" "[]" 0 0 0 "[]" "TCP_ctor 80 443"]
    by simp
qed

subsection \<open>Copy assignment\<close>

lemma copy_options_append: "copy_options src dst = dst @ copy_options src []"
proof (induction src arbitrary: dst)
  case Nil
  show ?case by simp
next
  case (Cons it rest)
  show ?case
    using Cons.IH [of "dst @ [\<lparr> option_f = option_f it, length_f = length_f it,
        value_f = (case value_f it of None \<Rightarrow> None
                   | Some v \<Rightarrow> Some (take (unat (length_f it)) v)) \<rparr>]"]
      Cons.IH [of "[\<lparr> option_f = option_f it, length_f = length_f it,
        value_f = (case value_f it of None \<Rightarrow> None
                   | Some v \<Rightarrow> Some (take (unat (length_f it)) v)) \<rparr>]"]
    by simp
qed

lemma assign_appends:
  "options (TCP_assign other this) = options this @ copy_options (options other) []"
  using copy_options_append [of "options other" "options this"]
  by (simp add: TCP_assign_def copy_fields_def)

text \<open>
  C5: \<open>copy_fields\<close> pushes the copies to the back of the destination's list and never
  clears it. After the assignment of a segment with an MSS option to a segment that holds
  a SACK-permitted option, the destination holds both options, while its counters are the
  source's (4); the copy constructor and \<open>clone_pdu\<close>, which start from an empty list,
  give the source's options.
\<close>

theorem C5_assignment_keeps_old_options:
  "options (add_option MSS 2 [0x05, 0xB4] (TCP_ctor 80 443))
     = [\<lparr> option_f = MSS, length_f = 2, value_f = Some [0x05, 0xB4] \<rparr>]
   \<and> options (TCP_assign (add_option MSS 2 [0x05, 0xB4] (TCP_ctor 80 443))
                (add_option SACK_OK 0 [] (TCP_ctor 25 1024)))
     = [\<lparr> option_f = SACK_OK, length_f = 0, value_f = None \<rparr>,
        \<lparr> option_f = MSS, length_f = 2, value_f = Some [0x05, 0xB4] \<rparr>]
   \<and> options_size (TCP_assign (add_option MSS 2 [0x05, 0xB4] (TCP_ctor 80 443))
                     (add_option SACK_OK 0 [] (TCP_ctor 25 1024))) = 4
   \<and> options (TCP_copy_ctor (add_option MSS 2 [0x05, 0xB4] (TCP_ctor 80 443)))
     = [\<lparr> option_f = MSS, length_f = 2, value_f = Some [0x05, 0xB4] \<rparr>]
   \<and> options (clone_pdu (add_option MSS 2 [0x05, 0xB4] (TCP_ctor 80 443)))
     = [\<lparr> option_f = MSS, length_f = 2, value_f = Some [0x05, 0xB4] \<rparr>]"
  by (simp add: TCP_assign_def TCP_copy_ctor_def clone_pdu_def copy_fields_def add_option_def
      ctor_defs)


subsection \<open>Decoding and serializing again\<close>

text \<open>The header read from 20 bytes has these bytes as its memory image.\<close>

lemma nibbles_of_byte:
  "ucast (ucast (b :: 8 word) :: 4 word) OR push_bit 4 (ucast (ucast (drop_bit 4 b) :: 4 word)) = b"
  by (rule bit_word_eqI) (auto simp: bit_simps)

lemma flags_of_byte:
  "ucast (ucast (b :: 8 word) :: 1 word)
     OR push_bit 1 (ucast (ucast (drop_bit 1 b) :: 1 word))
     OR push_bit 2 (ucast (ucast (drop_bit 2 b) :: 1 word))
     OR push_bit 3 (ucast (ucast (drop_bit 3 b) :: 1 word))
     OR push_bit 4 (ucast (ucast (drop_bit 4 b) :: 1 word))
     OR push_bit 5 (ucast (ucast (drop_bit 5 b) :: 1 word))
     OR push_bit 6 (ucast (ucast (drop_bit 6 b) :: 1 word))
     OR push_bit 7 (ucast (ucast (drop_bit 7 b) :: 1 word)) = b"
proof (rule bit_word_eqI)
  fix n :: nat
  assume "n < LENGTH(8)"
  then consider "n = 0" | "n = 1" | "n = 2" | "n = 3" | "n = 4" | "n = 5" | "n = 6" | "n = 7"
    by fastforce
  then show "bit (ucast (ucast (b :: 8 word) :: 1 word)
     OR push_bit 1 (ucast (ucast (drop_bit 1 b) :: 1 word))
     OR push_bit 2 (ucast (ucast (drop_bit 2 b) :: 1 word))
     OR push_bit 3 (ucast (ucast (drop_bit 3 b) :: 1 word))
     OR push_bit 4 (ucast (ucast (drop_bit 4 b) :: 1 word))
     OR push_bit 5 (ucast (ucast (drop_bit 5 b) :: 1 word))
     OR push_bit 6 (ucast (ucast (drop_bit 6 b) :: 1 word))
     OR push_bit 7 (ucast (ucast (drop_bit 7 b) :: 1 word)) :: 8 word) n = bit b n"
    by cases (simp_all add: bit_simps del: push_bit_Suc push_bit_of_1 One_nat_def)
qed

lemma list_of_length_20:
  assumes "length (bs :: 'a list) = 20"
  obtains b0 b1 b2 b3 b4 b5 b6 b7 b8 b9 b10 b11 b12 b13 b14 b15 b16 b17 b18 b19
  where "bs = [b0, b1, b2, b3, b4, b5, b6, b7, b8, b9, b10, b11, b12, b13, b14, b15, b16, b17,
               b18, b19]"
proof -
  have "bs = map (\<lambda>i. bs ! i) [0..<20]"
    using assms by (metis map_nth)
  also have "[0..<20] = [0, 1, 2, 3, 4, 5, 6, 7, 8, 9, 10, 11, 12, 13, 14, 15, 16, 17, 18, 19]"
    by (simp add: upt_rec)
  finally show ?thesis using that by simp
qed

lemma bytes_of_tcphdr_of_bytes:
  assumes "length bs = 20"
  shows "bytes_of_tcphdr (tcphdr_of_bytes bs) = bs"
proof -
  from assms obtain b0 b1 b2 b3 b4 b5 b6 b7 b8 b9 b10 b11 b12 b13 b14 b15 b16 b17 b18 b19
    where bs: "bs = [b0, b1, b2, b3, b4, b5, b6, b7, b8, b9, b10, b11, b12, b13, b14, b15, b16,
                     b17, b18, b19]"
    by (rule list_of_length_20)
  show ?thesis
    unfolding bs
    by (simp add: bytes_of_tcphdr_def tcphdr_of_bytes_def bytes_of_u16_of_bytes
        bytes_of_u32_of_bytes nibbles_of_byte flags_of_byte
        del: push_bit_Suc One_nat_def)
qed


text \<open>Well-formed options are written in their wire form, one after the other.\<close>

lemma length_option_bytes:
  "wf_option opt \<Longrightarrow> length (option_bytes opt) = unat (length_f opt) + 2"
  by (auto simp: wf_option_def option_bytes_def split: option.splits)

lemma unat_length_plus_2:
  fixes len :: "8 word"
  assumes "unat len + 2 < 256"
  shows "unat (len + 2) = unat len + 2"
proof -
  have "unat len + unat (2 :: 8 word) < 2 ^ LENGTH(8)" using assms by simp
  then have "unat (len + 2) = unat len + unat (2 :: 8 word)"
    by (simp only: unat_add_lem [THEN iffD1])
  then show ?thesis by simp
qed

lemma TCPOption_write_wf:
  assumes "wf_option opt" and "pos + length (option_bytes opt) \<le> length buf"
  shows "TCPOption_write opt buf pos
           = Inr (take pos buf @ option_bytes opt @ drop (pos + length (option_bytes opt)) buf,
                  pos + length (option_bytes opt))"
proof -
  have k: "option_f opt \<noteq> 1" using assms(1) by (simp add: wf_option_def)
  have u: "unat (length_f opt + 2) = unat (length_f opt) + 2"
    using assms(1) by (simp add: wf_option_def unat_length_plus_2)
  have len: "length (option_bytes opt) = unat (length_f opt) + 2"
    by (rule length_option_bytes [OF assms(1)])
  have p2: "pos + 2 \<le> length buf" using assms(2) len by simp
  let ?buf1 = "take pos buf @ [option_f opt, length_f opt + 2] @ drop (pos + 2) buf"
  have s1: "store_bytes buf pos [option_f opt, length_f opt + 2] = Inr ?buf1"
    using p2 by (simp add: store_bytes_def)
  have l1: "length ?buf1 = length buf" using p2 by simp
  have n1: "?buf1 ! (pos + 1) = length_f opt + 2"
    using p2 by (simp add: nth_append)
  show ?thesis
  proof (cases "value_f opt")
    case None
    then have "option_bytes opt = [option_f opt, length_f opt + 2]"
      by (simp add: option_bytes_def)
    then show ?thesis
      using k s1 None n1 u assms(1)
      by (simp add: TCPOption_write_def wf_option_def)
  next
    case (Some v)
    have lv: "length v = unat (length_f opt)" using assms(1) Some by (simp add: wf_option_def)
    have ob: "option_bytes opt = [option_f opt, length_f opt + 2] @ v"
      using Some by (simp add: option_bytes_def)
    have fit: "pos + 2 + length v \<le> length buf" using assms(2) ob by simp
    let ?buf2 = "take pos buf @ [option_f opt, length_f opt + 2] @ v @ drop (pos + 2 + length v) buf"
    have s2: "store_bytes ?buf1 (pos + 2) (take (unat (length_f opt)) v) = Inr ?buf2"
      using fit lv p2 by (simp add: store_bytes_def min_def add.commute)
    have n2: "?buf2 ! (pos + 1) = length_f opt + 2"
      using p2 by (simp add: nth_append)
    have "TCPOption_write opt buf pos = Inr (?buf2, pos + unat (?buf2 ! (pos + 1)))"
      using k s1 s2 Some by (simp add: TCPOption_write_def)
    then show ?thesis using n2 u ob lv by (simp add: add.assoc)
  qed
qed

lemma write_options_wf:
  assumes "list_all wf_option opts"
    and "pos + length (concat (map option_bytes opts)) \<le> length buf"
  shows "write_options opts buf pos
           = Inr (take pos buf @ concat (map option_bytes opts)
                    @ drop (pos + length (concat (map option_bytes opts))) buf,
                  pos + length (concat (map option_bytes opts)))"
  using assms
proof (induction opts arbitrary: buf pos)
  case Nil
  then show ?case by simp
next
  case (Cons opt opts)
  let ?n = "length (option_bytes opt)"
  let ?m = "length (concat (map option_bytes opts))"
  let ?buf1 = "take pos buf @ option_bytes opt @ drop (pos + ?n) buf"
  have wf: "wf_option opt" "list_all wf_option opts" using Cons.prems(1) by simp_all
  have fit: "pos + ?n + ?m \<le> length buf" using Cons.prems(2) by simp
  have w: "TCPOption_write opt buf pos = Inr (?buf1, pos + ?n)"
    using wf(1) fit by (intro TCPOption_write_wf) simp_all
  have l1: "length ?buf1 = length buf" using fit by simp
  have ih: "write_options opts ?buf1 (pos + ?n)
              = Inr (take (pos + ?n) ?buf1 @ concat (map option_bytes opts)
                       @ drop (pos + ?n + ?m) ?buf1, pos + ?n + ?m)"
    using wf(2) fit l1 by (intro Cons.IH) simp_all
  have t: "take (pos + ?n) ?buf1 = take pos buf @ option_bytes opt"
    using fit by simp
  have d: "drop (pos + ?n + ?m) ?buf1 = drop (pos + ?n + ?m) buf"
    using fit by (simp add: add.commute add.left_commute)
  show ?case using w ih t d by (simp add: add.assoc)
qed


lemma read_args_option:
  assumes "read_args buffer header_end index a0 a1 = Inr (index', b0, b1)"
    and "index < header_end" and "b0 \<noteq> NOP"
  shows "b0 = buffer ! unat index" and "b1 = buffer ! (unat index + 1)"
proof -
  have u1: "unat (index + 1) = unat index + 1" using assms(2) by (rule unat_succ_lt)
  show "b0 = buffer ! unat index"
    using assms by (auto simp: read_args_def Let_def split: if_splits)
  show "b1 = buffer ! (unat index + 1)"
    using assms u1 by (auto simp: read_args_def Let_def split: if_splits)
qed

lemma scan_step_cases:
  assumes "scan_step buffer header_end index a0 a1 t = Inr (index', a0', a1', t')"
    and "index < header_end"
  shows "(t' = t \<and> unat index \<le> unat index' \<and> unat index' \<le> unat header_end)
       \<or> (\<exists>len. buffer ! unat index \<noteq> NOP
              \<and> t' = add_option (buffer ! unat index) len (drop (unat index + 2) buffer) t
              \<and> buffer ! (unat index + 1) = len + 2
              \<and> unat index' = unat index + 2 + unat len
              \<and> unat index' \<le> unat header_end)"
proof -
  have lt: "unat index < unat header_end"
    using assms(2) by (simp add: word_less_nat_alt)
  from assms(1) obtain j b0 b1 where
    r: "read_args buffer header_end index a0 a1 = Inr (j, b0, b1)"
    by (auto simp: scan_step_def split: sum.splits)
  have le: "unat j \<le> unat header_end" by (rule read_args_bounds(1) [OF r assms(2)])
  consider (opt) "b0 \<noteq> NOP" "b0 \<noteq> EOL" | (eol) "b0 = EOL" | (nop) "b0 = NOP" by blast
  then show ?thesis
  proof cases
    case opt
    have j2: "unat j = unat index + 2" using read_args_bounds(4) [OF r assms(2)] opt by simp
    have b: "b0 = buffer ! unat index" "b1 = buffer ! (unat index + 1)"
      using read_args_option [OF r assms(2) opt(1)] by simp_all
    from assms(1) r opt have nlt: "\<not> header_end - j < ucast (b1 - 2)"
      and eq: "index' = j + ucast (b1 - 2)"
        "t' = add_option b0 (b1 - 2) (drop (unat j) buffer) t"
      by (auto simp: scan_step_def Let_def split: if_splits)
    have "unat (j + ucast (b1 - 2)) = unat j + unat (b1 - 2)"
      by (rule unat_advance(1) [OF le nlt])
    moreover have "unat j + unat (b1 - 2) \<le> unat header_end"
      by (rule unat_advance(2) [OF le nlt])
    ultimately have "buffer ! unat index \<noteq> NOP
        \<and> t' = add_option (buffer ! unat index) (b1 - 2) (drop (unat index + 2) buffer) t
        \<and> buffer ! (unat index + 1) = (b1 - 2) + 2
        \<and> unat index' = unat index + 2 + unat (b1 - 2)
        \<and> unat index' \<le> unat header_end"
      using eq j2 b opt by simp
    then show ?thesis by blast
  next
    case eol
    with assms(1) r have "index' = header_end" "t' = t"
      by (auto simp: scan_step_def Let_def split: if_splits)
    then show ?thesis using lt by simp
  next
    case nop
    with assms(1) r have eq: "index' = j" "t' = t"
      by (auto simp: scan_step_def Let_def split: if_splits)
    have "unat index \<le> unat j"
    proof (cases "a0 = NOP")
      case True
      then show ?thesis using read_args_bounds(3) [OF r assms(2)] by simp
    next
      case False
      then show ?thesis using read_args_bounds(2) [OF r assms(2)] by simp
    qed
    then show ?thesis using eq le by simp
  qed
qed

lemma add_option_fields:
  "tcp (add_option k len d t) = tcp t"
  "inner_pdu (add_option k len d t) = inner_pdu t"
  by (simp_all add: add_option_def Let_def)

lemma take_region_split:
  assumes "i + a + b \<le> length xs"
  shows "take (a + b) (drop i xs) = take a (drop i xs) @ take b (drop (i + a) xs)"
  by (simp add: take_add add.commute)

lemma stored_option_bytes:
  assumes "unat index + 2 + unat len \<le> length buffer"
    and "buffer ! (unat index + 1) = len + 2"
  shows "option_bytes \<lparr> option_f = buffer ! unat index, length_f = len,
            value_f = (if len \<noteq> 0 then Some (take (unat len) (drop (unat index + 2) buffer))
                       else None) \<rparr>
         = take (2 + unat len) (drop (unat index) buffer)"
proof -
  have two: "take 2 (drop (unat index) buffer) = [buffer ! unat index, buffer ! (unat index + 1)]"
  proof -
    have "unat index + 1 < length buffer" using assms(1) by simp
    then have "drop (unat index) buffer
                 = buffer ! unat index # buffer ! (unat index + 1) # drop (unat index + 2) buffer"
      by (metis Cons_nth_drop_Suc Suc_eq_plus1 Suc_lessD add_2_eq_Suc')
    then show ?thesis by simp
  qed
  have "take (2 + unat len) (drop (unat index) buffer)
          = take 2 (drop (unat index) buffer) @ take (unat len) (drop (unat index + 2) buffer)"
    using assms(1) by (intro take_region_split) simp
  moreover have "len = 0 \<Longrightarrow> take (unat len) (drop (unat index + 2) buffer) = []" by simp
  ultimately show ?thesis using two assms(2) by (simp add: option_bytes_def)
qed

lemma stored_option_wf:
  assumes "unat index + 2 + unat len \<le> length buffer" and "buffer ! unat index \<noteq> NOP"
    and "unat len + 2 < 256"
  shows "wf_option \<lparr> option_f = buffer ! unat index, length_f = len,
            value_f = (if len \<noteq> 0 then Some (take (unat len) (drop (unat index + 2) buffer))
                       else None) \<rparr>"
  using assms by (simp add: wf_option_def)


lemma scan_options_stored:
  assumes "scan_options buffer header_end index a0 a1 t = Inr (index', t')"
    and "unat index \<le> unat header_end" and "unat header_end \<le> length buffer"
    and "unat header_end \<le> 40"
  shows "index' = header_end \<and> tcp t' = tcp t \<and> inner_pdu t' = inner_pdu t
       \<and> (\<exists>new. options t' = options t @ new
              \<and> raw_size new \<le> unat header_end - unat index
              \<and> (raw_size new = unat header_end - unat index \<longrightarrow>
                    concat (map option_bytes new)
                      = take (unat header_end - unat index) (drop (unat index) buffer)
                    \<and> list_all wf_option new))"
  using assms
proof (induction buffer header_end index a0 a1 t rule: scan_options.induct)
  case (1 buffer header_end index a0 a1 t)
  show ?case
  proof (cases "index < header_end")
    case False
    then have "unat index = unat header_end"
      using "1.prems"(2) by (simp add: word_less_nat_alt)
    then have "index = header_end" by (simp add: word_unat_eq_iff)
    moreover have "index' = index" "t' = t"
      using "1.prems"(1) False by (simp_all add: scan_options.simps [of buffer header_end index])
    ultimately show ?thesis by simp
  next
    case True
    from "1.prems"(1) True obtain j b0 b1 t1 where
      step: "scan_step buffer header_end index a0 a1 t = Inr (j, b0, b1, t1)"
      and rest: "scan_options buffer header_end j b0 b1 t1 = Inr (index', t')"
      by (auto simp: scan_options.simps [of buffer header_end index] split: sum.splits)
    from scan_step_cases [OF step True]
    have jle: "unat j \<le> unat header_end" by blast
    have ih: "index' = header_end \<and> tcp t' = tcp t1 \<and> inner_pdu t' = inner_pdu t1
       \<and> (\<exists>new. options t' = options t1 @ new
              \<and> raw_size new \<le> unat header_end - unat j
              \<and> (raw_size new = unat header_end - unat j \<longrightarrow>
                    concat (map option_bytes new)
                      = take (unat header_end - unat j) (drop (unat j) buffer)
                    \<and> list_all wf_option new))"
      by (rule "1.IH" [OF True step refl refl refl rest jle "1.prems"(3,4)])
    then obtain new where
      n1: "options t' = options t1 @ new"
      and n2: "raw_size new \<le> unat header_end - unat j"
      and n3: "raw_size new = unat header_end - unat j \<Longrightarrow>
                 concat (map option_bytes new)
                   = take (unat header_end - unat j) (drop (unat j) buffer)
                 \<and> list_all wf_option new"
      by blast
    from scan_step_cases [OF step True] show ?thesis
    proof (elim disjE conjE exE)
      assume same: "t1 = t" and lo: "unat index \<le> unat j"
      have "raw_size new \<le> unat header_end - unat index" using n2 lo by simp
      moreover have "concat (map option_bytes new)
                   = take (unat header_end - unat index) (drop (unat index) buffer)
                 \<and> list_all wf_option new"
        if eq: "raw_size new = unat header_end - unat index"
      proof -
        have "unat j = unat index" using eq n2 lo jle by simp
        then show ?thesis using n3 eq by simp
      qed
      ultimately show ?thesis using ih n1 same by blast
    next
      fix len
      assume kind: "buffer ! unat index \<noteq> NOP"
        and t1: "t1 = add_option (buffer ! unat index) len (drop (unat index + 2) buffer) t"
        and lb: "buffer ! (unat index + 1) = len + 2"
        and j: "unat j = unat index + 2 + unat len"
      let ?opt = "\<lparr> option_f = buffer ! unat index, length_f = len,
            value_f = (if len \<noteq> 0 then Some (take (unat len) (drop (unat index + 2) buffer))
                       else None) \<rparr>"
      have fit: "unat index + 2 + unat len \<le> length buffer"
        using j jle "1.prems"(3) by simp
      have small: "unat len + 2 < 256" using j jle "1.prems"(4) by simp
      have o1: "options t1 = options t @ [?opt]" by (simp add: t1 add_option_def Let_def)
      have ob: "option_bytes ?opt = take (2 + unat len) (drop (unat index) buffer)"
        by (rule stored_option_bytes [OF fit lb])
      have wf: "wf_option ?opt" by (rule stored_option_wf [OF fit kind small])
      have all: "options t' = options t @ (?opt # new)" using n1 o1 by simp
      have raw: "raw_size (?opt # new) = unat len + 2 + raw_size new" by simp
      have bound: "raw_size (?opt # new) \<le> unat header_end - unat index"
        using raw n2 j jle by simp
      have full: "concat (map option_bytes (?opt # new))
                   = take (unat header_end - unat index) (drop (unat index) buffer)
                 \<and> list_all wf_option (?opt # new)"
        if eq: "raw_size (?opt # new) = unat header_end - unat index"
      proof -
        have r: "raw_size new = unat header_end - unat j" using eq raw j jle by simp
        have sp: "unat header_end - unat index = (2 + unat len) + (unat header_end - unat j)"
          using j jle by simp
        have "take ((2 + unat len) + (unat header_end - unat j)) (drop (unat index) buffer)
                = take (2 + unat len) (drop (unat index) buffer)
                  @ take (unat header_end - unat j) (drop (unat index + (2 + unat len)) buffer)"
          using j jle "1.prems"(3) by (intro take_region_split) simp
        then have "take (unat header_end - unat index) (drop (unat index) buffer)
                = option_bytes ?opt @ take (unat header_end - unat j) (drop (unat j) buffer)"
          using sp ob j by (simp add: add.assoc)
        then show ?thesis using n3 [OF r] wf by simp
      qed
      have fields: "tcp t1 = tcp t" "inner_pdu t1 = inner_pdu t"
        by (simp_all add: t1 add_option_fields)
      have "\<exists>new'. options t' = options t @ new'
              \<and> raw_size new' \<le> unat header_end - unat index
              \<and> (raw_size new' = unat header_end - unat index \<longrightarrow>
                    concat (map option_bytes new')
                      = take (unat header_end - unat index) (drop (unat index) buffer)
                    \<and> list_all wf_option new')"
      proof (intro exI [of _ "?opt # new"] conjI impI)
        show "options t' = options t @ (?opt # new)" by (rule all)
        show "raw_size (?opt # new) \<le> unat header_end - unat index" by (rule bound)
        show "concat (map option_bytes (?opt # new))
                = take (unat header_end - unat index) (drop (unat index) buffer)"
          if "raw_size (?opt # new) = unat header_end - unat index"
          using full [OF that] by (rule conjunct1)
        show "list_all wf_option (?opt # new)"
          if "raw_size (?opt # new) = unat header_end - unat index"
          using full [OF that] by (rule conjunct2)
      qed
      then show ?thesis using ih fields by simp
    qed
  qed
qed


text \<open>What a successful scan has stored, against the bytes of the options region.\<close>

lemma scan_options_sizes_inv:
  assumes "scan_options buffer header_end index a0 a1 t = Inr (index', t')" and "sizes_inv t"
  shows "sizes_inv t'"
  using assms
proof (induction buffer header_end index a0 a1 t rule: scan_options.induct)
  case (1 buffer header_end index a0 a1 t)
  show ?case
  proof (cases "index < header_end")
    case False
    then have "t' = t"
      using "1.prems"(1) by (simp add: scan_options.simps [of buffer header_end index])
    then show ?thesis using "1.prems"(2) by simp
  next
    case True
    from "1.prems"(1) True obtain j b0 b1 t1 where
      step: "scan_step buffer header_end index a0 a1 t = Inr (j, b0, b1, t1)"
      and rest: "scan_options buffer header_end j b0 b1 t1 = Inr (index', t')"
      by (auto simp: scan_options.simps [of buffer header_end index] split: sum.splits)
    have "sizes_inv t1"
      using scan_step_cases [OF step True] "1.prems"(2) by (auto intro: sizes_inv_add_option)
    then show ?thesis by (rule "1.IH" [OF True step refl refl refl rest])
  qed
qed

lemma make_inner_fields:
  "tcp (make_inner b n t) = tcp t" "options (make_inner b n t) = options t"
  "options_size (make_inner b n t) = options_size t"
  "total_options_size (make_inner b n t) = total_options_size t"
  by (simp_all add: make_inner_def)

lemma payload_of_make_inner:
  assumes "inner_pdu t = None" and "unat n = length b"
  shows "payload_bytes (make_inner b n t) = b"
proof (cases "n = 0")
  case True
  then have "length b = 0" using assms(2) by simp
  then show ?thesis using True assms(1) by (simp add: make_inner_def payload_bytes_def)
next
  case False
  then show ?thesis using assms(2) by (simp add: make_inner_def payload_bytes_def)
qed

lemma decoded_with_full_region:
  assumes n32: "length buffer < 2 ^ 32"
    and dec: "TCP_from_buffer buffer = Inr t"
    and full: "options_size t = ucast (doff (tcp t)) * 4 - 20"
  shows "20 \<le> length buffer"
    and "tcp t = tcphdr_of_bytes (take 20 buffer)"
    and "20 + unat (options_size t) \<le> length buffer"
    and "unat (options_size t) \<le> 40"
    and "5 \<le> unat (doff (tcp t))"
    and "concat (map option_bytes (options t)) = take (unat (options_size t)) (drop 20 buffer)"
    and "list_all wf_option (options t)"
    and "payload_bytes t = drop (20 + unat (options_size t)) buffer"
proof -
  let ?hdr = "tcphdr_of_bytes (take 20 buffer)"
  let ?t0 = "\<lparr> tcp = ?hdr, options = [], options_size = 0, total_options_size = 0,
                inner_pdu = None \<rparr>"
  let ?he = "ucast (doff ?hdr) * 4 - 20 :: 32 word"
  let ?total_sz = "of_nat (length buffer) - 20 :: 32 word"
  have nlt: "\<not> (of_nat (length buffer) :: 32 word) < 20"
    using dec by (auto simp: TCP_from_buffer_def Let_def split: if_splits)
  have un: "unat (of_nat (length buffer) :: 32 word) = length buffer"
    using n32 by (simp add: unat_of_nat)
  show n20: "20 \<le> length buffer"
    using nlt un by (simp add: word_less_nat_alt)
  have ts: "unat ?total_sz = length buffer - 20" by (rule unat_total_sz(3) [OF n20 n32])
  have entered: "?he \<le> ?total_sz"
  proof (rule ccontr)
    assume skip: "\<not> ?he \<le> ?total_sz"
    then have "t = make_inner (drop 20 buffer) ?total_sz ?t0"
      using dec nlt by (simp add: TCP_from_buffer_def Let_def)
    then have "options_size t = 0" "tcp t = ?hdr" by (simp_all add: make_inner_fields)
    then have "?he = 0" using full by simp
    then show False using skip by simp
  qed
  from dec nlt entered obtain index t1 where
    scan: "scan_options (drop 20 buffer) ?he 0 0 0 ?t0 = Inr (index, t1)"
    and t: "t = make_inner (drop (unat index) (drop 20 buffer)) (?total_sz - index) t1"
    by (auto simp: TCP_from_buffer_def Let_def split: sum.splits)
  have he40: "unat ?he \<le> 40" and hefit: "unat ?he \<le> length buffer - 20"
    and d5: "5 \<le> unat (doff ?hdr)"
    using scan_entered_header_end [OF n20 n32 entered] by simp_all
  have hefit': "unat ?he \<le> length (drop 20 buffer)" using hefit by simp
  have z: "unat (0 :: 32 word) \<le> unat ?he" by simp
  from scan_options_stored [OF scan z hefit' he40]
  obtain new where
    idx: "index = ?he" and hdr1: "tcp t1 = ?hdr" and in1: "inner_pdu t1 = None"
    and o1: "options t1 = new"
    and raw: "raw_size new \<le> unat ?he"
    and eqc: "raw_size new = unat ?he \<Longrightarrow>
               concat (map option_bytes new) = take (unat ?he) (drop 20 buffer)
               \<and> list_all wf_option new"
    by auto
  show hdr: "tcp t = ?hdr" using t hdr1 by (simp add: make_inner_fields)
  have inv0: "sizes_inv ?t0" by (simp add: sizes_inv_def padded_def)
  have "sizes_inv t1" by (rule scan_options_sizes_inv [OF scan inv0])
  then have "options_size t1 = of_nat (raw_size new)" using o1 by (simp add: sizes_inv_def)
  then have os: "options_size t = of_nat (raw_size new)" using t by (simp add: make_inner_fields)
  have "raw_size new < 2 ^ 32" using raw he40 by simp
  then have uos: "unat (options_size t) = raw_size new" using os by (simp add: unat_of_nat)
  have he: "options_size t = ?he" using full hdr by simp
  then have req: "raw_size new = unat ?he" using uos by simp
  show "20 + unat (options_size t) \<le> length buffer" using he hefit n20 by simp
  show "unat (options_size t) \<le> 40" using he he40 by simp
  show "5 \<le> unat (doff (tcp t))" using hdr d5 by simp
  have ot: "options t = new" using t o1 by (simp add: make_inner_fields)
  show "concat (map option_bytes (options t)) = take (unat (options_size t)) (drop 20 buffer)"
    using eqc [OF req] ot he by simp
  show "list_all wf_option (options t)" using eqc [OF req] ot by simp
  have "?he \<le> ?total_sz" by (rule entered)
  then have "unat (?total_sz - ?he) = unat ?total_sz - unat ?he" by (rule unat_sub)
  then have "unat (?total_sz - index) = length (drop (unat index) (drop 20 buffer))"
    using idx ts by simp
  then have "payload_bytes t = drop (unat index) (drop 20 buffer)"
    unfolding t by (intro payload_of_make_inner in1)
  then show "payload_bytes t = drop (20 + unat (options_size t)) buffer"
    using idx he by (simp add: add.commute)
qed


lemma doff_recomputed:
  fixes d :: "4 word"
  assumes "5 \<le> unat d"
  shows "(ucast ((20 + (ucast (ucast d * 4 - 20 :: 32 word) :: 64 word)) div 4) :: 4 word) = d"
proof -
  let ?he = "ucast d * 4 - 20 :: 32 word"
  have he: "unat ?he = unat d * 4 - 20" by (rule unat_header_end [OF assms])
  have d16: "unat d < 16" by (rule unat_ucast_doff(2))
  have "unat ?he < 2 ^ 64" using he d16 by simp
  then have u64: "unat (ucast ?he :: 64 word) = unat d * 4 - 20"
    using he by (simp add: unsigned_ucast_eq take_bit_nat_eq_self)
  have "unat (20 :: 64 word) + unat (ucast ?he :: 64 word) < 2 ^ LENGTH(64)"
    using u64 d16 by simp
  then have "unat (20 + (ucast ?he :: 64 word)) = unat (20 :: 64 word) + unat (ucast ?he :: 64 word)"
    by (simp only: unat_add_lem [THEN iffD1])
  then have "unat (20 + (ucast ?he :: 64 word)) = unat d * 4" using u64 assms by simp
  then have q: "unat ((20 + (ucast ?he :: 64 word)) div 4) = unat d" by (simp add: unat_div)
  have "unat (ucast d :: 64 word) = unat d"
    using d16 by (simp add: unsigned_ucast_eq take_bit_nat_eq_self)
  then have "(20 + (ucast ?he :: 64 word)) div 4 = ucast d"
    using q by (simp add: word_unat_eq_iff)
  moreover have "(ucast (ucast d :: 64 word) :: 4 word) = d"
    by (rule bit_word_eqI) (auto simp: bit_simps)
  ultimately show ?thesis by simp
qed

text \<open>
  C1, as stated, fails: the decoder drops NOP bytes, so a buffer with data offset 6 and
  four NOP bytes decodes to a segment without options (padded size 0 = encoded size 0)
  and a non-zero checksum, which serializes to 20 bytes with data offset 5.
\<close>

theorem C1_counterexample:
  "TCP_from_buffer
     [0x01, 0xBB, 0x00, 0x50, 0, 0, 0, 1, 0, 0, 0, 2, 0x60, 0x10, 0x7F, 0xA6, 0x12, 0x34, 0, 0,
      1, 1, 1, 1]
   = Inr \<lparr> tcp = \<lparr> sport = 0xBB01, dport = 0x5000, seq = 0x01000000, ack_seq = 0x02000000,
            res1 = 0, doff = 6, fin = 0, syn = 0, rst = 0, psh = 0, ack = 1, urg = 0, ece = 0,
            cwr = 0, window = 0xA67F, check = 0x3412, urg_ptr = 0 \<rparr>,
           options = [], options_size = 0, total_options_size = 0, inner_pdu = None \<rparr>
   \<and> serialize
       \<lparr> tcp = \<lparr> sport = 0xBB01, dport = 0x5000, seq = 0x01000000, ack_seq = 0x02000000,
            res1 = 0, doff = 6, fin = 0, syn = 0, rst = 0, psh = 0, ack = 1, urg = 0, ece = 0,
            cwr = 0, window = 0xA67F, check = 0x3412, urg_ptr = 0 \<rparr>,
         options = [], options_size = 0, total_options_size = 0, inner_pdu = None \<rparr> None
     = Inr ([0x01, 0xBB, 0x00, 0x50, 0, 0, 0, 1, 0, 0, 0, 2, 0x50, 0x10, 0x7F, 0xA6, 0x12, 0x34,
             0, 0],
            \<lparr> tcp = \<lparr> sport = 0xBB01, dport = 0x5000, seq = 0x01000000, ack_seq = 0x02000000,
                 res1 = 0, doff = 5, fin = 0, syn = 0, rst = 0, psh = 0, ack = 1, urg = 0,
                 ece = 0, cwr = 0, window = 0xA67F, check = 0, urg_ptr = 0 \<rparr>,
              options = [], options_size = 0, total_options_size = 0, inner_pdu = None \<rparr>)
   \<and> [0x01, 0xBB, 0x00, 0x50, 0, 0, 0, 1, 0, 0, 0, 2, 0x50, 0x10, 0x7F, 0xA6, 0x12, 0x34, 0, 0]
       \<noteq> [0x01, 0xBB, 0x00, 0x50, 0, 0, 0, 1, 0, 0, 0, 2, 0x60, 0x10, 0x7F, 0xA6, 0x12, 0x34, 0, 0,
          1, 1, 1, 1 :: 8 word]"
  by (simp add: TCP_from_buffer_def tcphdr_of_bytes_def Let_def scan_options.simps
      scan_step_def read_args_def make_inner_def serialize_def write_serialization_def
      write_checksum_def store_bytes_def header_size_def payload_bytes_def byte_defs)


text \<open>
  C1, amended: if moreover the options region that the data offset declares is exactly as
  long as the encoded size of the stored options (it holds options only, no NOP and no
  EOL bytes), then serializing the decoded segment under any parent gives the buffer back
  byte for byte, and resets the stored checksum.
\<close>

theorem C1_decode_encode_round_trip:
  assumes n32: "length buffer < 2 ^ 32"
    and dec: "TCP_from_buffer buffer = Inr t"
    and chk: "check (tcp t) \<noteq> 0"
    and pad: "total_options_size t = options_size t"
    and full: "options_size t = ucast (doff (tcp t)) * 4 - 20"
  shows "serialize t parent = Inr (buffer, t\<lparr>tcp := (tcp t)\<lparr>check := 0\<rparr>\<rparr>)"
proof -
  let ?n = "unat (options_size t)"
  let ?W = "take ?n (drop 20 buffer)"
  let ?P = "drop (20 + ?n) buffer"
  let ?region = "replicate (20 + ?n) 0 @ ?P"
  note d = decoded_with_full_region [OF n32 dec full]
  have n20: "20 \<le> length buffer" by (rule d(1))
  have fit: "20 + ?n \<le> length buffer" by (rule d(3))
  have hs: "unat (header_size t) = 20 + ?n"
  proof -
    have "unat (20 :: 32 word) + unat (options_size t) < 2 ^ LENGTH(32)" using d(4) by simp
    then have "unat (20 + options_size t) = unat (20 :: 32 word) + unat (options_size t)"
      by (simp only: unat_add_lem [THEN iffD1])
    then show ?thesis by (simp add: header_size_def pad)
  qed
  have lr: "length ?region = length buffer" using fit by simp
  have un: "unat (of_nat (length buffer) :: 32 word) = length buffer"
    using n32 by (simp add: unat_of_nat)
  have asrt: "\<not> (of_nat (length buffer) :: 32 word) < header_size t"
    using hs un fit by (simp add: word_less_nat_alt)
  have same: "(tcp t)\<lparr>doff := ucast ((20 + (ucast (options_size t) :: 64 word)) div 4)\<rparr> = tcp t"
    using doff_recomputed [OF d(5)] by (simp add: full)
  have lw: "length (concat (map option_bytes (options t))) = ?n" using d(6) fit by simp
  have wo: "write_options (options t) ?region 20
              = Inr (replicate 20 0 @ ?W @ ?P, 20 + ?n)"
  proof -
    have "write_options (options t) ?region 20
            = Inr (take 20 ?region @ concat (map option_bytes (options t))
                     @ drop (20 + length (concat (map option_bytes (options t)))) ?region,
                   20 + length (concat (map option_bytes (options t))))"
      using d(7) lw fit by (intro write_options_wf) simp_all
    then show ?thesis using lw d(6) by simp
  qed
  have hb: "bytes_of_tcphdr (tcp t) = take 20 buffer"
    using d(2) n20 by (simp add: bytes_of_tcphdr_of_bytes)
  have sb: "store_bytes (replicate 20 0 @ ?W @ ?P) 0 (bytes_of_tcphdr (tcp t))
              = Inr (take 20 buffer @ ?W @ ?P)"
    using hb n20 by (simp add: store_bytes_def)
  have wc: "write_checksum (take 20 buffer @ ?W @ ?P) (of_nat (length buffer)) parent t
              = Inr (take 20 buffer @ ?W @ ?P)"
    using chk by (simp add: write_checksum_def)
  have whole: "take 20 buffer @ ?W @ ?P = buffer"
  proof -
    have "?W @ ?P = drop 20 buffer"
      by (metis append_take_drop_id drop_drop add.commute)
    then show ?thesis by simp
  qed
  have "write_serialization ?region (of_nat (length buffer)) parent t
          = Inr (take 20 buffer @ ?W @ ?P, t\<lparr>tcp := (tcp t)\<lparr>check := 0\<rparr>\<rparr>)"
    using asrt wo sb wc
    by (simp add: write_serialization_def Let_def same pad)
  then show ?thesis
    using whole lr by (simp add: serialize_def Let_def hs d(8))
qed


theorem C1_decode_encode_round_trip_witness:
  "TCP_from_buffer
     [0x01, 0xBB, 0x00, 0x50, 0, 0, 0, 1, 0, 0, 0, 2, 0x60, 0x10, 0x7F, 0xA6, 0x12, 0x34, 0, 0,
      2, 4, 5, 0xB4, 9, 9]
   = Inr \<lparr> tcp = \<lparr> sport = 0xBB01, dport = 0x5000, seq = 0x01000000, ack_seq = 0x02000000,
            res1 = 0, doff = 6, fin = 0, syn = 0, rst = 0, psh = 0, ack = 1, urg = 0, ece = 0,
            cwr = 0, window = 0xA67F, check = 0x3412, urg_ptr = 0 \<rparr>,
           options = [\<lparr> option_f = MSS, length_f = 2, value_f = Some [5, 0xB4] \<rparr>],
           options_size = 4, total_options_size = 4, inner_pdu = Some [9, 9] \<rparr>
   \<and> serialize
       \<lparr> tcp = \<lparr> sport = 0xBB01, dport = 0x5000, seq = 0x01000000, ack_seq = 0x02000000,
            res1 = 0, doff = 6, fin = 0, syn = 0, rst = 0, psh = 0, ack = 1, urg = 0, ece = 0,
            cwr = 0, window = 0xA67F, check = 0x3412, urg_ptr = 0 \<rparr>,
         options = [\<lparr> option_f = MSS, length_f = 2, value_f = Some [5, 0xB4] \<rparr>],
         options_size = 4, total_options_size = 4, inner_pdu = Some [9, 9] \<rparr> None
     = Inr ([0x01, 0xBB, 0x00, 0x50, 0, 0, 0, 1, 0, 0, 0, 2, 0x60, 0x10, 0x7F, 0xA6, 0x12, 0x34,
             0, 0, 2, 4, 5, 0xB4, 9, 9],
            \<lparr> tcp = \<lparr> sport = 0xBB01, dport = 0x5000, seq = 0x01000000, ack_seq = 0x02000000,
                 res1 = 0, doff = 6, fin = 0, syn = 0, rst = 0, psh = 0, ack = 1, urg = 0,
                 ece = 0, cwr = 0, window = 0xA67F, check = 0, urg_ptr = 0 \<rparr>,
              options = [\<lparr> option_f = MSS, length_f = 2, value_f = Some [5, 0xB4] \<rparr>],
              options_size = 4, total_options_size = 4, inner_pdu = Some [9, 9] \<rparr>)"
proof -
  let ?b = "[0x01, 0xBB, 0x00, 0x50, 0, 0, 0, 1, 0, 0, 0, 2, 0x60, 0x10, 0x7F, 0xA6, 0x12, 0x34,
             0, 0, 2, 4, 5, 0xB4, 9, 9 :: 8 word]"
  let ?t = "\<lparr> tcp = \<lparr> sport = 0xBB01, dport = 0x5000, seq = 0x01000000, ack_seq = 0x02000000,
            res1 = 0, doff = 6, fin = 0, syn = 0, rst = 0, psh = 0, ack = 1, urg = 0, ece = 0,
            cwr = 0, window = 0xA67F, check = 0x3412, urg_ptr = 0 \<rparr>,
           options = [\<lparr> option_f = MSS, length_f = 2, value_f = Some [5, 0xB4] \<rparr>],
           options_size = 4, total_options_size = 4, inner_pdu = Some [9, 9] \<rparr>"
  have h1: "length ?b < 2 ^ 32" by simp
  have h2: "TCP_from_buffer ?b = Inr ?t"
    by (simp add: TCP_from_buffer_def tcphdr_of_bytes_def Let_def scan_options.simps
        scan_step_def read_args_def add_option_def make_inner_def byte_defs)
  have h3: "check (tcp ?t) \<noteq> 0" by simp
  have h4: "total_options_size ?t = options_size ?t" by simp
  have h5: "options_size ?t = ucast (doff (tcp ?t)) * 4 - 20" by simp
  show ?thesis
    using h2 C1_decode_encode_round_trip [OF h1 h2 h3 h4 h5, of None] by simp
qed


subsection \<open>The size counters after insertions\<close>

lemma decoded_sizes_inv:
  assumes "TCP_from_buffer buffer = Inr t"
  shows "sizes_inv t"
proof -
  let ?t0 = "\<lparr> tcp = tcphdr_of_bytes (take 20 buffer), options = [], options_size = 0,
                total_options_size = 0, inner_pdu = None \<rparr>"
  have inv0: "sizes_inv ?t0" by (simp add: sizes_inv_def padded_def)
  have mk: "sizes_inv (make_inner b n t1)" if "sizes_inv t1" for b n t1
    using that by (simp add: sizes_inv_def make_inner_fields)
  from assms consider
    (skipped) b n where "t = make_inner b n ?t0"
    | (scanned) header_end index t1 b n where
        "scan_options (drop 20 buffer) header_end 0 0 0 ?t0 = Inr (index, t1)"
        "t = make_inner b n t1"
    by (auto simp: TCP_from_buffer_def Let_def split: if_splits sum.splits)
  then show ?thesis
  proof cases
    case skipped
    then show ?thesis using mk [OF inv0] by simp
  next
    case scanned
    have "sizes_inv t1" by (rule scan_options_sizes_inv [OF scanned(1) inv0])
    then show ?thesis using mk scanned(2) by simp
  qed
qed

text \<open>
  C6: after every sequence of insertions into a segment that a constructor has built
  (from ports, or from a buffer) the raw counter is the sum of \<open>length + 2\<close> over the
  stored options, the padded counter exceeds it by at most 3 and is a multiple of 4. The
  counters are \<^verbatim>\<open>uint32_t\<close>, so the sum and the difference are taken modulo \<open>2 ^ 32\<close>; as
  long as the sum is at most \<open>2 ^ 32 - 4\<close> the counters are the sizes of the
  specification themselves.
\<close>

theorem C6_option_sizes_invariant:
  assumes "t0 = TCP_ctor dport_arg sport_arg \<or> TCP_from_buffer buffer = Inr t0"
    and "t = add_options adds t0"
  shows "options_size t = of_nat (raw_size (options t))
         \<and> total_options_size t - options_size t \<le> 3
         \<and> unat (total_options_size t) mod 4 = 0
         \<and> (raw_size (options t) \<le> 2 ^ 32 - 4 \<longrightarrow>
              unat (options_size t) = raw_size (options t)
              \<and> unat (total_options_size t) = round_up4 (raw_size (options t))
              \<and> unat (options_size t) \<le> unat (total_options_size t)
              \<and> unat (total_options_size t) - unat (options_size t) \<le> 3)"
proof -
  have "sizes_inv t0"
    using assms(1) sizes_inv_ctor decoded_sizes_inv by blast
  then have inv: "sizes_inv t"
    unfolding assms(2) by (rule sizes_inv_add_options)
  then have s: "options_size t = of_nat (raw_size (options t))"
    and p: "total_options_size t = padded (options_size t)"
    by (simp_all add: sizes_inv_def)
  have b: "total_options_size t - options_size t \<le> 3" unfolding p by (rule padded_props(1))
  have c: "unat (total_options_size t) mod 4 = 0" unfolding p by (rule padded_props(2))
  have d: "unat (options_size t) = raw_size (options t)
           \<and> unat (total_options_size t) = round_up4 (raw_size (options t))
           \<and> unat (options_size t) \<le> unat (total_options_size t)
           \<and> unat (total_options_size t) - unat (options_size t) \<le> 3"
    if le: "raw_size (options t) \<le> 2 ^ 32 - 4"
  proof -
    have u: "unat (options_size t) = raw_size (options t)"
      using le by (simp add: s unat_of_nat)
    then have "unat (options_size t) \<le> 2 ^ 32 - 4" using le by simp
    then have "unat (padded (options_size t)) = round_up4 (unat (options_size t))"
      by (rule padded_props(3))
    then have v: "unat (total_options_size t) = round_up4 (raw_size (options t))"
      using u p by simp
    have "raw_size (options t) \<le> round_up4 (raw_size (options t))"
      "round_up4 (raw_size (options t)) - raw_size (options t) \<le> 3"
      by (rule round_up4_bounds)+
    then show ?thesis using u v by simp
  qed
  show ?thesis using s b c d by blast
qed

theorem C6_option_sizes_invariant_witness:
  "options_size (add_options [(MSS, 2, [5, 0xB4]), (WSCALE, 1, [7])] (TCP_ctor 80 443)) = 7
   \<and> total_options_size (add_options [(MSS, 2, [5, 0xB4]), (WSCALE, 1, [7])] (TCP_ctor 80 443)) = 8
   \<and> raw_size (options (add_options [(MSS, 2, [5, 0xB4]), (WSCALE, 1, [7])] (TCP_ctor 80 443))) = 7
   \<and> round_up4 7 = 8"
  using C6_option_sizes_invariant [where dport_arg = 80 and sport_arg = 443 and buffer = "[]"
      and adds = "[(MSS, 2, [5, 0xB4]), (WSCALE, 1, [7])]", OF disjI1 [OF refl] refl]
  by (simp add: add_option_def TCP_ctor_def set_window_def set_data_offset_def set_sport_def
      set_dport_def round_up4_def)

end
